theory Spec2Isabelle
  imports Complex_Main "HOL-Library.Multiset"
begin

section \<open>Constants of game.js\<close>

text \<open>
  \<^verbatim>\<open>const DICE_SIDES = [4, 6, 8, 10, 12, 20, 100];\<close>
  A die is its number of faces. The difficulty selects the number of D100s to collect
  (\<^verbatim>\<open>DIFFICULTY[...].targetD100s\<close>).
\<close>

definition DICE_SIDES :: "nat list" where
  "DICE_SIDES = [4, 6, 8, 10, 12, 20, 100]"

datatype difficulty = Easy | Medium | Hard

fun targetD100s :: "difficulty \<Rightarrow> nat" where
  "targetD100s Easy = 1"
| "targetD100s Medium = 3"
| "targetD100s Hard = 5"

section \<open>The random source\<close>

text \<open>
  \<^verbatim>\<open>Math.random()\<close> is the only source of randomness. It is modelled as an explicit
  sequence of draws that is threaded through every function that draws from it: a call
  takes the head of the sequence and leaves the rest. ECMAScript promises a draw
  \<open>r\<close> with \<open>0 \<le> r < 1\<close>; \<open>rng_ok\<close> states that of every draw. Products such as
  \<^verbatim>\<open>Math.random() * sides\<close> are taken exactly.
\<close>

type_synonym rng = "nat \<Rightarrow> real"

definition Math_random :: "rng \<Rightarrow> real \<times> rng" where
  "Math_random g = (g 0, \<lambda>n. g (Suc n))"

definition rng_ok :: "rng \<Rightarrow> bool" where
  "rng_ok g = (\<forall>n. 0 \<le> g n \<and> g n < 1)"

section \<open>Array helpers\<close>

text \<open>
  \<^verbatim>\<open>Array.prototype.indexOf\<close>: the first index holding the value, or \<open>-1\<close>.
  \<^verbatim>\<open>splice(i, 1)\<close> removes the entry at index \<open>i\<close>.
  \<^verbatim>\<open>sort((a, b) => b - a)\<close> sorts descending.
\<close>

fun indexOf :: "'a list \<Rightarrow> 'a \<Rightarrow> int" where
  "indexOf [] x = -1"
| "indexOf (y # ys) x =
     (if y = x then 0
      else (let r = indexOf ys x in if r = -1 then -1 else r + 1))"

definition splice1 :: "nat \<Rightarrow> 'a list \<Rightarrow> 'a list" where
  "splice1 i xs = take i xs @ drop (Suc i) xs"

definition sortDesc :: "nat list \<Rightarrow> nat list" where
  "sortDesc xs = rev (sort xs)"

fun findFirst :: "('a \<Rightarrow> bool) \<Rightarrow> 'a list \<Rightarrow> nat option" where
  "findFirst P [] = None"
| "findFirst P (x # xs) = (if P x then Some 0 else map_option Suc (findFirst P xs))"

section \<open>class Player\<close>

record player =
  name :: string
  isHuman :: bool
  dice :: "nat list"
  madeFirstChoice :: bool
  eliminated :: bool
  chosenDie :: nat
  roundScore :: int
  roundRolls :: "int list"

definition new_Player :: "string \<Rightarrow> bool \<Rightarrow> player" where
  "new_Player nm human =
     \<lparr> name = nm, isHuman = human, dice = [4], madeFirstChoice = False,
       eliminated = False, chosenDie = 4, roundScore = 0, roundRolls = [] \<rparr>"

definition isProtected :: "player \<Rightarrow> bool" where
  "isProtected p = (\<not> madeFirstChoice p)"

definition d100Count :: "player \<Rightarrow> nat" where
  "d100Count p = length (filter (\<lambda>d. d = 100) (dice p))"

definition bestDie :: "player \<Rightarrow> nat" where
  "bestDie p = (if length (dice p) > 0 then Max (set (dice p)) else 0)"

text \<open>
  \<^verbatim>\<open>rollForRound\<close>: the loop \<^verbatim>\<open>for (let i = 0; i < sides; i++)\<close> runs \<open>sides\<close>
  times; each pass draws once, pushes \<^verbatim>\<open>Math.ceil(Math.random() * sides)\<close> and adds
  it to the score. The first argument of \<open>rollLoop\<close> is the number of passes left.
\<close>

fun rollLoop :: "nat \<Rightarrow> nat \<Rightarrow> player \<Rightarrow> rng \<Rightarrow> player \<times> rng" where
  "rollLoop 0 sides p g = (p, g)"
| "rollLoop (Suc n) sides p g =
     (let (r, g') = Math_random g;
          roll = \<lceil>r * real sides\<rceil>
      in rollLoop n sides
           (p\<lparr>roundRolls := roundRolls p @ [roll], roundScore := roundScore p + roll\<rparr>) g')"

definition rollForRound :: "player \<Rightarrow> rng \<Rightarrow> player \<times> rng" where
  "rollForRound p g =
     (let sides = chosenDie p
      in rollLoop sides sides (p\<lparr>roundRolls := [], roundScore := 0\<rparr>) g)"

text \<open>
  \<^verbatim>\<open>applyChoice(choice)\<close>: any choice other than the string \<^verbatim>\<open>'duplicate'\<close> takes the
  upgrade branch. The result is the returned \<^verbatim>\<open>prevDie\<close> and the updated player.
\<close>

definition applyChoice :: "string \<Rightarrow> player \<Rightarrow> nat \<times> player" where
  "applyChoice choice p =
     (let prevDie = chosenDie p;
          p1 = p\<lparr>madeFirstChoice := True\<rparr>;
          p2 = (if choice = ''duplicate'' then p1\<lparr>dice := dice p1 @ [chosenDie p1]\<rparr>
                else
                  (let idx = indexOf DICE_SIDES (chosenDie p1);
                       nextIdx = min (idx + 1) (int (length DICE_SIDES) - 1);
                       dieIdx = indexOf (dice p1) (chosenDie p1)
                   in if dieIdx \<noteq> -1
                      then p1\<lparr>dice := (dice p1)[nat dieIdx := DICE_SIDES ! nat nextIdx]\<rparr>
                      else p1))
      in (prevDie, p2\<lparr>dice := sortDesc (dice p2)\<rparr>))"

text \<open>
  \<^verbatim>\<open>loseRandomDie()\<close>: the result is the die lost (\<open>None\<close> for \<^verbatim>\<open>null\<close>), the
  updated player and the rest of the random source. No draw is made on the early
  returns. \<open>pickFrom\<close> is the tail of the method, from the random pick on.
\<close>

definition pickFrom :: "nat list \<Rightarrow> player \<Rightarrow> rng \<Rightarrow> nat option \<times> player \<times> rng" where
  "pickFrom eligible p g =
     (let (r, g') = Math_random g;
          pick = eligible ! nat \<lfloor>r * real (length eligible)\<rfloor>;
          lost = dice p ! pick
      in (Some lost, p\<lparr>dice := splice1 pick (dice p)\<rparr>, g'))"

definition loseRandomDie :: "player \<Rightarrow> rng \<Rightarrow> nat option \<times> player \<times> rng" where
  "loseRandomDie p g =
     (if length (dice p) = 0 then (None, p, g)
      else
        (let eligible = [0..<length (dice p)]
         in if isProtected p then
              (let d4Idx = indexOf (dice p) 4
               in if d4Idx \<noteq> -1 \<and> length (dice p) = 1 then (None, p, g)
                  else
                    (let eligible' = (if d4Idx \<noteq> -1
                                      then filter (\<lambda>i. int i \<noteq> d4Idx) eligible
                                      else eligible)
                     in if length eligible' = 0 then (None, p, g)
                        else pickFrom eligible' p g))
            else pickFrom eligible p g))"

definition getAIChoice :: "player \<Rightarrow> string" where
  "getAIChoice p =
     (let idx = indexOf DICE_SIDES (chosenDie p)
      in if idx < int (length DICE_SIDES) - 1 then ''upgrade'' else ''duplicate'')"

section \<open>The game state and the round lifecycle\<close>

datatype phase = Setup | SelectDie | Rolling | Resolving | Choice | Continue | Over

record game_state =
  players :: "player list"
  pool :: "nat list"
  round' :: nat
  difficulty :: difficulty
  numOpponents :: nat
  phase :: phase

text \<open>
  A player object is referred to by its index in \<open>players\<close>: the arrays \<^verbatim>\<open>active\<close>,
  \<^verbatim>\<open>tied\<close> and \<^verbatim>\<open>losers\<close> hold references into \<^verbatim>\<open>state.players\<close>, and
  \<^verbatim>\<open>p !== winner\<close> compares references.

  What the page waits for after a handler has run is a value of \<open>pending\<close>: the
  section that is shown (with the argument its handler closes over) or the timer that
  is set. \<open>WinScreen w\<close> is \<^verbatim>\<open>endGame(w)\<close>, with \<open>None\<close> for \<^verbatim>\<open>null\<close>.
\<close>

datatype pending =
    ShowDieSelector
  | ShowRollSection
  | TimerResolve "nat list"
  | TimerChoice nat
  | ShowChoice bool
  | ShowContinue
  | WinScreen "nat option"

text \<open>
  \<open>TypeError\<close>: a property of \<^verbatim>\<open>undefined\<close> is read. \<open>UndefinedDie\<close>:
  \<^verbatim>\<open>human.dice[0]\<close> of an empty array is \<^verbatim>\<open>undefined\<close>, which is no die; the
  model stops where the source would store it as \<^verbatim>\<open>chosenDie\<close>.
\<close>

datatype error = TypeError | UndefinedDie

definition startRound :: "game_state \<Rightarrow> error + (game_state \<times> pending)" where
  "startRound s =
     (let s1 = s\<lparr>round' := round' s + 1, phase := SelectDie\<rparr>;
          s2 = s1\<lparr>players :=
                 map (\<lambda>p. if \<not> isHuman p \<and> \<not> eliminated p then p\<lparr>chosenDie := bestDie p\<rparr> else p)
                   (players s1)\<rparr>
      in case players s2 of
           [] \<Rightarrow> Inl TypeError
         | human # rest \<Rightarrow>
             if eliminated human then Inr (s2, ShowRollSection)
             else if length (dice human) > 1 then Inr (s2, ShowDieSelector)
             else (case dice human of
                     [] \<Rightarrow> Inl UndefinedDie
                   | d # _ \<Rightarrow>
                       Inr (s2\<lparr>players := human\<lparr>chosenDie := d\<rparr> # rest\<rparr>, ShowRollSection)))"

text \<open>
  \<^verbatim>\<open>initGame\<close> overwrites every field of \<^verbatim>\<open>state\<close>. Its arguments are what it reads
  from the page and the shuffled copy of \<^verbatim>\<open>AI_NAMES\<close>; a name read past the end of
  that array is \<^verbatim>\<open>undefined\<close>.
\<close>

definition nameAt :: "string list \<Rightarrow> nat \<Rightarrow> string" where
  "nameAt names i = (if i < length names then names ! i else ''undefined'')"

definition initGame :: "difficulty \<Rightarrow> nat \<Rightarrow> string list \<Rightarrow> error + (game_state \<times> pending)" where
  "initGame d n names =
     startRound
       \<lparr> players = new_Player ''You'' True # map (\<lambda>i. new_Player (nameAt names i) False) [0..<n],
         pool = [], round' = 0, difficulty = d, numOpponents = n, phase = SelectDie \<rparr>"

text \<open>The click handler of a button of the die selector.\<close>

definition selectDie :: "nat \<Rightarrow> game_state \<Rightarrow> error + (game_state \<times> pending)" where
  "selectDie sides s =
     (case players s of
        [] \<Rightarrow> Inl TypeError
      | human # rest \<Rightarrow> Inr (s\<lparr>players := human\<lparr>chosenDie := sides\<rparr> # rest\<rparr>, ShowRollSection))"

definition activeOf :: "game_state \<Rightarrow> nat list" where
  "activeOf s = filter (\<lambda>i. \<not> eliminated (players s ! i)) [0..<length (players s)]"

definition rollAt :: "nat \<Rightarrow> player list \<times> rng \<Rightarrow> player list \<times> rng" where
  "rollAt i = (\<lambda>(ps, g). let (p', g') = rollForRound (ps ! i) g in (ps[i := p'], g'))"

definition executeRound :: "game_state \<Rightarrow> rng \<Rightarrow> (game_state \<times> pending) \<times> rng" where
  "executeRound s g =
     (let s1 = s\<lparr>phase := Rolling\<rparr>;
          active = activeOf s1;
          (ps, g') = fold rollAt active (players s1, g)
      in ((s1\<lparr>players := ps\<rparr>, TimerResolve active), g'))"

text \<open>
  \<^verbatim>\<open>resolveRound(active)\<close>, up to the timer it sets for the winner's choice. \<open>loserStep\<close>
  is the body of \<^verbatim>\<open>losers.forEach\<close>; \<^verbatim>\<open>losses\<close> holds, for each line pushed, the
  loser's name and the die lost. \<open>acc_lost\<close> is a trace that the source does not keep:
  for each loser in turn, the loser and the value of \<^verbatim>\<open>lost\<close> in its pass. With no
  tied player \<^verbatim>\<open>winner\<close> is \<^verbatim>\<open>undefined\<close> and \<^verbatim>\<open>winner.name\<close> throws.
\<close>

definition maxScoreOf :: "player list \<Rightarrow> nat list \<Rightarrow> int" where
  "maxScoreOf ps active =
     fold (\<lambda>i maxScore. if roundScore (ps ! i) > maxScore then roundScore (ps ! i) else maxScore)
       active (-1)"

definition tiedOf :: "player list \<Rightarrow> nat list \<Rightarrow> nat list" where
  "tiedOf ps active = filter (\<lambda>i. roundScore (ps ! i) = maxScoreOf ps active) active"

record round_acc =
  acc_state :: game_state
  acc_losses :: "(string \<times> nat) list"
  acc_lost :: "(nat \<times> nat option) list"
  acc_rng :: rng

definition loserStep :: "nat \<Rightarrow> round_acc \<Rightarrow> round_acc" where
  "loserStep i a =
     (let s = acc_state a;
          p = players s ! i;
          (lost, p1, g') = loseRandomDie p (acc_rng a);
          s1 = (case lost of None \<Rightarrow> s | Some d \<Rightarrow> s\<lparr>pool := pool s @ [d]\<rparr>);
          losses1 = (case lost of None \<Rightarrow> acc_losses a | Some d \<Rightarrow> acc_losses a @ [(name p, d)]);
          p2 = (if length (dice p1) = 0 then p1\<lparr>eliminated := True\<rparr> else p1)
      in \<lparr> acc_state = s1\<lparr>players := (players s1)[i := p2]\<rparr>,
           acc_losses = losses1,
           acc_lost = acc_lost a @ [(i, lost)],
           acc_rng = g' \<rparr>)"

record round_result =
  res_state :: game_state
  res_winner :: nat
  res_losers :: "nat list"
  res_losses :: "(string \<times> nat) list"
  res_lost :: "(nat \<times> nat option) list"
  res_pending :: pending
  res_rng :: rng

definition resolveRound :: "nat list \<Rightarrow> game_state \<Rightarrow> rng \<Rightarrow> error + round_result" where
  "resolveRound active s g =
     (let tied = tiedOf (players s) active;
          (r, g1) = Math_random g;
          k = nat \<lfloor>r * real (length tied)\<rfloor>;
          s1 = s\<lparr>phase := Resolving\<rparr>
      in if k < length tied then
           (let winner = tied ! k;
                losers = filter (\<lambda>i. i \<noteq> winner) active;
                a = fold loserStep losers
                      \<lparr> acc_state = s1, acc_losses = [], acc_lost = [], acc_rng = g1 \<rparr>
            in Inr \<lparr> res_state = acc_state a, res_winner = winner, res_losers = losers,
                     res_losses = acc_losses a, res_lost = acc_lost a,
                     res_pending = TimerChoice winner, res_rng = acc_rng a \<rparr>)
         else Inl TypeError)"

text \<open>The win condition; \<^verbatim>\<open>endGame\<close> sets the phase and shows the win screen.\<close>

definition endGame :: "nat option \<Rightarrow> game_state \<Rightarrow> game_state \<times> pending" where
  "endGame w s = (s\<lparr>phase := Over\<rparr>, WinScreen w)"

definition checkWinCondition :: "game_state \<Rightarrow> error + (game_state \<times> pending)" where
  "checkWinCondition s =
     (let target = targetD100s (difficulty s)
      in case findFirst (\<lambda>p. d100Count p \<ge> target) (players s) of
           Some i \<Rightarrow> Inr (endGame (Some i) s)
         | None \<Rightarrow>
             (let alive = activeOf s
              in if length alive = 1 then Inr (endGame (Some (alive ! 0)) s)
                 else (case players s of
                         [] \<Rightarrow> Inl TypeError
                       | human # _ \<Rightarrow>
                           if eliminated human then Inr (endGame None s)
                           else Inr (s\<lparr>phase := Continue\<rparr>, ShowContinue))))"

text \<open>
  The timer set by \<^verbatim>\<open>resolveRound\<close>: a human winner is shown the choice section (the
  upgrade button is disabled unless \<^verbatim>\<open>canUpgrade\<close>), any other winner chooses by
  \<^verbatim>\<open>getAIChoice\<close>.
\<close>

definition canUpgrade :: "player \<Rightarrow> bool" where
  "canUpgrade p = (indexOf DICE_SIDES (chosenDie p) < int (length DICE_SIDES) - 1)"

definition showHumanChoice :: "nat \<Rightarrow> game_state \<Rightarrow> game_state \<times> pending" where
  "showHumanChoice w s = (s\<lparr>phase := Choice\<rparr>, ShowChoice (canUpgrade (players s ! w)))"

definition winnerChoice :: "nat \<Rightarrow> game_state \<Rightarrow> error + (game_state \<times> pending)" where
  "winnerChoice w s =
     (let winner = players s ! w
      in if isHuman winner then Inr (showHumanChoice w s)
         else
           (let choice = getAIChoice winner;
                (prevDie, winner') = applyChoice choice winner
            in checkWinCondition (s\<lparr>players := (players s)[w := winner']\<rparr>)))"

definition applyHumanChoice :: "string \<Rightarrow> game_state \<Rightarrow> error + (game_state \<times> pending)" where
  "applyHumanChoice choice s =
     (case players s of
        [] \<Rightarrow> Inl TypeError
      | winner # rest \<Rightarrow>
          (let (prevDie, winner') = applyChoice choice winner
           in checkWinCondition (s\<lparr>players := winner' # rest\<rparr>)))"

text \<open>
  The configurations a session can be in after a handler or a timer has run. Every
  handler may be given any random source that \<open>rng_ok\<close> admits. A handler that throws
  leaves no configuration behind; \<open>reachable_handlers_return\<close> below shows that none
  throws in a configuration that a session reaches. The buttons offered are those that the page shows:
  a die of the human's in the die selector, and in the choice section
  \<^verbatim>\<open>'duplicate'\<close>, or \<^verbatim>\<open>'upgrade'\<close> when its button is enabled.
\<close>

inductive reachable :: "game_state \<Rightarrow> pending \<Rightarrow> bool" where
  r_init: "initGame d n names = Inr (s, u) \<Longrightarrow> reachable s u"
| r_select: "reachable s ShowDieSelector \<Longrightarrow> sides \<in> set (dice (hd (players s))) \<Longrightarrow>
     selectDie sides s = Inr (s', u) \<Longrightarrow> reachable s' u"
| r_roll: "reachable s ShowRollSection \<Longrightarrow> rng_ok g \<Longrightarrow>
     executeRound s g = ((s', u), g') \<Longrightarrow> reachable s' u"
| r_resolve: "reachable s (TimerResolve active) \<Longrightarrow> rng_ok g \<Longrightarrow>
     resolveRound active s g = Inr res \<Longrightarrow> reachable (res_state res) (res_pending res)"
| r_winner: "reachable s (TimerChoice w) \<Longrightarrow>
     winnerChoice w s = Inr (s', u) \<Longrightarrow> reachable s' u"
| r_choice: "reachable s (ShowChoice cu) \<Longrightarrow>
     choice = ''duplicate'' \<or> (choice = ''upgrade'' \<and> cu) \<Longrightarrow>
     applyHumanChoice choice s = Inr (s', u) \<Longrightarrow> reachable s' u"
| r_continue: "reachable s ShowContinue \<Longrightarrow>
     startRound s = Inr (s', u) \<Longrightarrow> reachable s' u"

section \<open>The conditions of the win evaluator\<close>

text \<open>
  The three conditions that end the game, in the words of the specification: some
  player (eliminated or not) holds at least the target number of D100s; exactly one
  player is not eliminated; the human player, at index 0, is eliminated.
\<close>

definition targetReached :: "game_state \<Rightarrow> bool" where
  "targetReached s = (\<exists>p \<in> set (players s). targetD100s (difficulty s) \<le> d100Count p)"

definition oneSurvivor :: "game_state \<Rightarrow> bool" where
  "oneSurvivor s = (length (filter (\<lambda>p. \<not> eliminated p) (players s)) = 1)"

definition humanOut :: "game_state \<Rightarrow> bool" where
  "humanOut s = eliminated (players s ! 0)"

section \<open>The eligible set of a loss\<close>

text \<open>
  The dice a loss may remove, in the words of the specification: every index of
  \<open>dice\<close>, except that for a protected player holding a lowest-tier die the first
  such entry is left out. \<open>drawsUsed\<close> counts the draws that the losses recorded in a
  trace have made: one for each die lost, none for a loss of nothing.
\<close>

definition eligibleIndices :: "player \<Rightarrow> nat list" where
  "eligibleIndices p =
     (if \<not> madeFirstChoice p \<and> 4 \<in> set (dice p)
      then filter (\<lambda>k. int k \<noteq> indexOf (dice p) 4) [0..<length (dice p)]
      else [0..<length (dice p)])"


section \<open>The players the class can build\<close>

text \<open>
  A player is made by the constructor and changed only by the methods of the class
  and by the two assignments the game makes to its fields (\<^verbatim>\<open>chosenDie\<close> and
  \<^verbatim>\<open>eliminated = true\<close>).
\<close>

inductive built :: "player \<Rightarrow> bool" where
  b_new: "built (new_Player nm human)"
| b_roll: "built p \<Longrightarrow> built (fst (rollForRound p g))"
| b_choice: "built p \<Longrightarrow> built (snd (applyChoice choice p))"
| b_lose: "built p \<Longrightarrow> rng_ok g \<Longrightarrow> built (fst (snd (loseRandomDie p g)))"
| b_chosen: "built p \<Longrightarrow> built (p\<lparr>chosenDie := d\<rparr>)"
| b_eliminated: "built p \<Longrightarrow> built (p\<lparr>eliminated := True\<rparr>)"

section \<open>The outcome of a loss, and the invariant of a session\<close>

text \<open>
  \<open>lossOutcome p lost p'\<close> relates a loser before and after one pass of
  \<^verbatim>\<open>losers.forEach\<close> that returned \<open>lost\<close> from \<^verbatim>\<open>loseRandomDie\<close>: either nothing
  was lost, or the die at one index was removed; then the player is marked eliminated if
  no die is left.

  \<open>playerInv\<close> is what holds of every player of a session: the dice are empty exactly
  when the player is eliminated, and a player who has made no choice holds a single D4.
  \<open>coreOf\<close> collects the fields that the invariant reads. \<open>coreInv\<close> adds that the
  human player is the one at index 0, \<open>pendingInv\<close> what holds of the argument a
  pending handler closes over.
\<close>

definition eliminateIfEmpty :: "player \<Rightarrow> player" where
  "eliminateIfEmpty p = (if length (dice p) = 0 then p\<lparr>eliminated := True\<rparr> else p)"

definition lossOutcome :: "player \<Rightarrow> nat option \<Rightarrow> player \<Rightarrow> bool" where
  "lossOutcome p lost p' =
     (case lost of
        None \<Rightarrow> p' = eliminateIfEmpty p
      | Some d \<Rightarrow>
          (\<exists>pick < length (dice p). d = dice p ! pick \<and>
             (isProtected p \<longrightarrow> int pick \<noteq> indexOf (dice p) 4) \<and>
             p' = eliminateIfEmpty (p\<lparr>dice := splice1 pick (dice p)\<rparr>)))"

definition playerInv :: "player \<Rightarrow> bool" where
  "playerInv p = (((dice p = []) = eliminated p) \<and> (\<not> madeFirstChoice p \<longrightarrow> dice p = [4]))"

definition coreOf :: "player \<Rightarrow> bool \<times> nat list \<times> bool \<times> bool" where
  "coreOf p = (isHuman p, dice p, madeFirstChoice p, eliminated p)"

definition coreInv :: "player list \<Rightarrow> bool" where
  "coreInv ps =
     (ps \<noteq> [] \<and> (\<forall>p \<in> set ps. playerInv p) \<and> (\<forall>i < length ps. isHuman (ps ! i) = (i = 0)))"

definition pendingInv :: "game_state \<Rightarrow> pending \<Rightarrow> bool" where
  "pendingInv s u =
     (case u of
        TimerResolve active \<Rightarrow> active = activeOf s
      | TimerChoice w \<Rightarrow> w < length (players s) \<and> \<not> eliminated (players s ! w)
      | ShowChoice cu \<Rightarrow> \<not> eliminated (players s ! 0)
      | _ \<Rightarrow> True)"

definition sessionInv :: "game_state \<Rightarrow> pending \<Rightarrow> bool" where
  "sessionInv s u = (coreInv (players s) \<and> pendingInv s u)"

text \<open>
  \<open>liveInv\<close> is what keeps the handlers from throwing: no score is negative, and some
  player is not eliminated. \<open>liveOf\<close> collects the fields that it reads.
\<close>

definition liveInv :: "player list \<Rightarrow> bool" where
  "liveInv ps = ((\<forall>p \<in> set ps. 0 \<le> roundScore p) \<and> (\<exists>p \<in> set ps. \<not> eliminated p))"

definition liveOf :: "player \<Rightarrow> int \<times> bool" where
  "liveOf p = (roundScore p, eliminated p)"

section \<open>Example values\<close>

text \<open>
  An opponent and a human player with the given dice, chosen die and
  \<open>madeFirstChoice\<close>; a state with the given players and difficulty, as it stands after
  a round has been resolved; and the random source whose every draw is \<open>r\<close>.
\<close>

definition examplePlayer :: "nat list \<Rightarrow> nat \<Rightarrow> bool \<Rightarrow> player" where
  "examplePlayer ds c made =
     \<lparr> name = ''Aria'', isHuman = False, dice = ds, madeFirstChoice = made,
       eliminated = False, chosenDie = c, roundScore = 0, roundRolls = [] \<rparr>"

definition constRng :: "real \<Rightarrow> rng" where
  "constRng r = (\<lambda>n. r)"

definition exampleHuman :: "nat list \<Rightarrow> nat \<Rightarrow> bool \<Rightarrow> player" where
  "exampleHuman ds c made =
     \<lparr> name = ''You'', isHuman = True, dice = ds, madeFirstChoice = made,
       eliminated = False, chosenDie = c, roundScore = 0, roundRolls = [] \<rparr>"

definition exampleState :: "player list \<Rightarrow> difficulty \<Rightarrow> game_state" where
  "exampleState ps d =
     \<lparr> players = ps, pool = [], round' = 1, difficulty = d,
       numOpponents = length ps - 1, phase = Resolving \<rparr>"

text \<open>
  A session of two rounds between the human and one opponent. In round 1 the human
  draws low and the opponent high: the opponent wins and upgrades to a D6, the protected
  human keeps the D4. In round 2 the human draws high and the opponent low: the human
  wins and the opponent loses the D6, its only die, and is eliminated.
\<close>

definition lowThenHigh :: "nat \<Rightarrow> rng" where
  "lowThenHigh k = (\<lambda>n. if n < k then 1 / 10 else 9 / 10)"

definition highThenLow :: "nat \<Rightarrow> rng" where
  "highThenLow k = (\<lambda>n. if n < k then 9 / 10 else 1 / 10)"

definition mkPlayer ::
  "string \<Rightarrow> bool \<Rightarrow> nat list \<Rightarrow> bool \<Rightarrow> bool \<Rightarrow> nat \<Rightarrow> int list \<Rightarrow> player" where
  "mkPlayer nm human ds made elim chosen rolls =
     \<lparr> name = nm, isHuman = human, dice = ds, madeFirstChoice = made, eliminated = elim,
       chosenDie = chosen, roundScore = sum_list rolls, roundRolls = rolls \<rparr>"

definition mkState :: "player list \<Rightarrow> nat list \<Rightarrow> nat \<Rightarrow> phase \<Rightarrow> game_state" where
  "mkState ps pl r ph =
     \<lparr> players = ps, pool = pl, round' = r, difficulty = Easy, numOpponents = 1, phase = ph \<rparr>"

definition sessionStart :: game_state where
  "sessionStart =
     mkState [mkPlayer ''You'' True [4] False False 4 [],
              mkPlayer ''Aria'' False [4] False False 4 []] [] 1 SelectDie"

definition round1Rolled :: game_state where
  "round1Rolled =
     mkState [mkPlayer ''You'' True [4] False False 4 [1, 1, 1, 1],
              mkPlayer ''Aria'' False [4] False False 4 [4, 4, 4, 4]] [] 1 Rolling"

definition round1Resolved :: game_state where
  "round1Resolved =
     mkState [mkPlayer ''You'' True [4] False False 4 [1, 1, 1, 1],
              mkPlayer ''Aria'' False [4] False False 4 [4, 4, 4, 4]] [] 1 Resolving"

definition round1Chosen :: game_state where
  "round1Chosen =
     mkState [mkPlayer ''You'' True [4] False False 4 [1, 1, 1, 1],
              mkPlayer ''Aria'' False [6] True False 4 [4, 4, 4, 4]] [] 1 Continue"

definition round2Start :: game_state where
  "round2Start =
     mkState [mkPlayer ''You'' True [4] False False 4 [1, 1, 1, 1],
              mkPlayer ''Aria'' False [6] True False 6 [4, 4, 4, 4]] [] 2 SelectDie"

definition round2Rolled :: game_state where
  "round2Rolled =
     mkState [mkPlayer ''You'' True [4] False False 4 [4, 4, 4, 4],
              mkPlayer ''Aria'' False [6] True False 6 [1, 1, 1, 1, 1, 1]] [] 2 Rolling"


definition round2Resolved :: game_state where
  "round2Resolved =
     mkState [mkPlayer ''You'' True [4] False False 4 [4, 4, 4, 4],
              mkPlayer ''Aria'' False [] True True 6 [1, 1, 1, 1, 1, 1]] [6] 2 Resolving"

section \<open>Facts about the array helpers\<close>

lemma indexOf_ge: "indexOf xs x \<ge> -1"
  by (induction xs) (auto simp: Let_def)

lemma indexOf_absent: "(indexOf xs x = -1) = (x \<notin> set xs)"
proof (induction xs)
  case Nil
  show ?case by simp
next
  case (Cons y ys)
  have "indexOf ys x \<ge> -1" by (rule indexOf_ge)
  with Cons show ?case by (auto simp: Let_def)
qed

lemma indexOf_present:
  "x \<in> set xs \<Longrightarrow>
     0 \<le> indexOf xs x \<and> nat (indexOf xs x) < length xs \<and> xs ! nat (indexOf xs x) = x"
proof (induction xs)
  case Nil
  then show ?case by simp
next
  case (Cons y ys)
  show ?case
  proof (cases "y = x")
    case True
    then show ?thesis by simp
  next
    case False
    with Cons.prems have in_ys: "x \<in> set ys" by simp
    then have ne: "indexOf ys x \<noteq> -1" by (simp add: indexOf_absent)
    from Cons.IH [OF in_ys] have ih: "0 \<le> indexOf ys x" "nat (indexOf ys x) < length ys"
      "ys ! nat (indexOf ys x) = x" by simp_all
    have "nat (indexOf ys x + 1) = Suc (nat (indexOf ys x))" using ih(1) by simp
    with False ne ih show ?thesis by (simp add: Let_def)
  qed
qed

lemma mset_sortDesc: "mset (sortDesc xs) = mset xs"
  by (simp add: sortDesc_def)

lemma length_sortDesc: "length (sortDesc xs) = length xs"
  by (simp add: sortDesc_def)

lemma sorted_sortDesc: "sorted (rev (sortDesc xs))"
  by (simp add: sortDesc_def)

lemma sortDesc_Nil_iff: "(sortDesc xs = []) = (xs = [])"
  using length_sortDesc [of xs] by (metis length_0_conv)

lemma mset_splice1: "i < length xs \<Longrightarrow> mset xs = mset (splice1 i xs) + {#xs ! i#}"
proof -
  assume "i < length xs"
  then have "xs = take i xs @ xs ! i # drop (Suc i) xs" by (rule id_take_nth_drop)
  then have "mset xs = mset (take i xs @ xs ! i # drop (Suc i) xs)" by simp
  then show ?thesis by (simp add: splice1_def)
qed


lemma nth_in_splice1:
  assumes "i < length xs" "j < length xs" "i \<noteq> j"
  shows "xs ! j \<in> set (splice1 i xs)"
proof (cases "j < i")
  case True
  then have "xs ! j = take i xs ! j" by simp
  moreover have "j < length (take i xs)" using True assms by simp
  ultimately have "xs ! j \<in> set (take i xs)" by (metis nth_mem)
  then show ?thesis by (simp add: splice1_def)
next
  case False
  with assms have gt: "Suc i \<le> j" by simp
  then have "xs ! j = drop (Suc i) xs ! (j - Suc i)" using assms by simp
  moreover have "j - Suc i < length (drop (Suc i) xs)" using gt assms by simp
  ultimately have "xs ! j \<in> set (drop (Suc i) xs)" by (metis nth_mem)
  then show ?thesis by (simp add: splice1_def)
qed

section \<open>Facts about the random source\<close>

lemma rng_ok_constRng: "0 \<le> r \<Longrightarrow> r < 1 \<Longrightarrow> rng_ok (constRng r)"
  by (simp add: rng_ok_def constRng_def)

lemma floor_pick:
  assumes "0 \<le> r" "r < 1" "0 < n"
  shows "nat \<lfloor>r * real n\<rfloor> < n"
proof -
  have "r * real n < real n" using assms by simp
  then have "\<lfloor>r * real n\<rfloor> < int n" by (simp add: floor_less_iff)
  then show ?thesis using assms by simp
qed

lemma ceil_roll:
  assumes "0 \<le> r" "r < 1"
  shows "0 \<le> \<lceil>r * real n\<rceil> \<and> \<lceil>r * real n\<rceil> \<le> int n"
proof -
  have a: "0 \<le> r * real n" using assms by simp
  have b: "r * real n \<le> real n" using assms by (simp add: mult_left_le_one_le)
  from a have "0 \<le> \<lceil>r * real n\<rceil>" by (simp add: ceiling_le_iff le_ceiling_iff)
  moreover from b have "\<lceil>r * real n\<rceil> \<le> int n" by (simp add: ceiling_le_iff)
  ultimately show ?thesis by simp
qed

section \<open>Rolling\<close>

lemma rollLoop_eq:
  "rollLoop n sides p g =
     (p\<lparr>roundRolls := roundRolls p @ map (\<lambda>k. \<lceil>g k * real sides\<rceil>) [0..<n],
        roundScore := roundScore p + sum_list (map (\<lambda>k. \<lceil>g k * real sides\<rceil>) [0..<n])\<rparr>,
      \<lambda>k. g (k + n))"
proof (induction n arbitrary: p g)
  case 0
  show ?case by simp
next
  case (Suc n)
  show ?case
    by (simp add: Math_random_def Suc.IH map_upt_Suc Let_def add.assoc del: upt_Suc)
qed

lemma rollForRound_eq:
  "rollForRound p g =
     (p\<lparr>roundRolls := map (\<lambda>k. \<lceil>g k * real (chosenDie p)\<rceil>) [0..<chosenDie p],
        roundScore := sum_list (map (\<lambda>k. \<lceil>g k * real (chosenDie p)\<rceil>) [0..<chosenDie p])\<rparr>,
      \<lambda>k. g (k + chosenDie p))"
  by (simp add: rollForRound_def rollLoop_eq Let_def)

text \<open>
  What holds of every roll: as many rolls as the chosen die has sides, each between 0 and
  the number of sides, and the score is their sum. A roll is at least 1 when its draw is
  not 0.
\<close>

lemma rollForRound_spec:
  assumes "rng_ok g"
  shows "length (roundRolls (fst (rollForRound p g))) = chosenDie p \<and>
    (\<forall>x \<in> set (roundRolls (fst (rollForRound p g))). 0 \<le> x \<and> x \<le> int (chosenDie p)) \<and>
    roundScore (fst (rollForRound p g)) = sum_list (roundRolls (fst (rollForRound p g))) \<and>
    0 \<le> roundScore (fst (rollForRound p g))"
proof -
  have b: "\<And>k. 0 \<le> \<lceil>g k * real (chosenDie p)\<rceil> \<and> \<lceil>g k * real (chosenDie p)\<rceil> \<le> int (chosenDie p)"
    using assms ceil_roll by (simp add: rng_ok_def)
  then have "0 \<le> sum_list (map (\<lambda>k. \<lceil>g k * real (chosenDie p)\<rceil>) [0..<chosenDie p])"
    by (intro sum_list_nonneg) auto
  with b show ?thesis by (auto simp: rollForRound_eq)
qed

lemma rollForRound_positive:
  assumes "rng_ok g" "\<forall>k. 0 < g k"
  shows "\<forall>x \<in> set (roundRolls (fst (rollForRound p g))). 1 \<le> x \<and> x \<le> int (chosenDie p)"
proof -
  { fix k assume "k < chosenDie p"
    then have "0 < g k * real (chosenDie p)" using assms(2) by simp
    then have "1 \<le> \<lceil>g k * real (chosenDie p)\<rceil>" by (simp add: less_ceiling_iff Suc_le_eq) }
  moreover have "\<And>k. \<lceil>g k * real (chosenDie p)\<rceil> \<le> int (chosenDie p)"
    using assms(1) ceil_roll by (simp add: rng_ok_def)
  ultimately show ?thesis by (auto simp: rollForRound_eq)
qed

text \<open>
  Claim C1: for a player whose chosen die has S sides, \<^verbatim>\<open>rollForRound()\<close> produces S
  integers, each in the range 1 to S, stores them as \<^verbatim>\<open>roundRolls\<close> and sets
  \<^verbatim>\<open>roundScore\<close> to their sum. The range fails at the draw 0, which
  \<^verbatim>\<open>Math.random()\<close> may return: \<^verbatim>\<open>Math.ceil(0 * 4)\<close> is 0, so a D4 rolls four
  zeros and scores 0.
\<close>

theorem rollForRound_zero_draw:
  "rng_ok (constRng 0) \<and>
   chosenDie (examplePlayer [4] 4 False) = 4 \<and>
   roundRolls (fst (rollForRound (examplePlayer [4] 4 False) (constRng 0))) = [0, 0, 0, 0] \<and>
   roundScore (fst (rollForRound (examplePlayer [4] 4 False) (constRng 0))) = 0"
  by (simp add: rng_ok_def constRng_def rollForRound_def examplePlayer_def Math_random_def
      numeral_eq_Suc)

section \<open>Losing a die\<close>

lemma pickFrom_result:
  assumes "rng_ok g" "eligible \<noteq> []"
  shows "\<exists>pick \<in> set eligible.
     pickFrom eligible p g =
       (Some (dice p ! pick), p\<lparr>dice := splice1 pick (dice p)\<rparr>, \<lambda>n. g (Suc n))"
proof -
  from assms(1) have r: "0 \<le> g 0" "g 0 < 1" by (simp_all add: rng_ok_def)
  have "nat \<lfloor>g 0 * real (length eligible)\<rfloor> < length eligible"
    using r assms(2) by (simp add: floor_pick)
  then have "eligible ! nat \<lfloor>g 0 * real (length eligible)\<rfloor> \<in> set eligible" by simp
  then show ?thesis by (auto simp: pickFrom_def Math_random_def Let_def)
qed

text \<open>
  The two outcomes of \<^verbatim>\<open>loseRandomDie\<close>: nothing is lost and nothing changes, or the
  die at one index is removed and returned; for a protected player that index is never
  the first index of a D4.
\<close>

lemma loseRandomDie_cases:
  assumes "rng_ok g"
  shows "loseRandomDie p g = (None, p, g) \<or>
     (\<exists>pick. pick < length (dice p) \<and>
        (isProtected p \<longrightarrow> int pick \<noteq> indexOf (dice p) 4) \<and>
        loseRandomDie p g =
          (Some (dice p ! pick), p\<lparr>dice := splice1 pick (dice p)\<rparr>, \<lambda>n. g (Suc n)))"
proof (cases "loseRandomDie p g = (None, p, g)")
  case True
  then show ?thesis by simp
next
  case False
  let ?el = "[0..<length (dice p)]"
  let ?el' = "if indexOf (dice p) 4 \<noteq> -1
    then filter (\<lambda>i. int i \<noteq> indexOf (dice p) 4) ?el else ?el"
  show ?thesis
  proof (cases "isProtected p")
    case True
    with False have ne: "?el' \<noteq> []" and eq: "loseRandomDie p g = pickFrom ?el' p g"
      by (auto simp: loseRandomDie_def Let_def split: if_splits)
    from pickFrom_result [OF assms ne, of p] obtain pick where
      pick: "pick \<in> set ?el'"
      "pickFrom ?el' p g =
         (Some (dice p ! pick), p\<lparr>dice := splice1 pick (dice p)\<rparr>, \<lambda>n. g (Suc n))"
      by blast
    have "pick < length (dice p)" using pick(1) by (auto split: if_splits)
    moreover have "int pick \<noteq> indexOf (dice p) 4"
      using pick(1) by (auto split: if_splits)
    ultimately show ?thesis using eq pick(2) by auto
  next
    case np: False
    with False have ne: "?el \<noteq> []" and eq: "loseRandomDie p g = pickFrom ?el p g"
      by (auto simp: loseRandomDie_def Let_def split: if_splits)
    from pickFrom_result [OF assms ne, of p] obtain pick where
      pick: "pick \<in> set ?el"
      "pickFrom ?el p g =
         (Some (dice p ! pick), p\<lparr>dice := splice1 pick (dice p)\<rparr>, \<lambda>n. g (Suc n))"
      by blast
    then show ?thesis using eq np by auto
  qed
qed

text \<open>
  The method written over the eligible set: nothing is lost when the set is empty,
  which is when there is no die or when a protected player holds only a D4; otherwise
  the draw picks one of its indices.
\<close>

lemma loseRandomDie_eq:
  "loseRandomDie p g =
     (if eligibleIndices p = [] then (None, p, g) else pickFrom (eligibleIndices p) p g)"
proof (cases "4 \<in> set (dice p)")
  case True
  then have ne: "indexOf (dice p) 4 \<noteq> -1" by (simp add: indexOf_absent)
  from True have dne: "dice p \<noteq> []" by auto
  show ?thesis
  proof (cases "length (dice p) = 1")
    case one: True
    then obtain d where d: "dice p = [d]" by (cases "dice p") auto
    with True have "dice p = [4]" by simp
    then show ?thesis by (simp add: loseRandomDie_def eligibleIndices_def isProtected_def Let_def)
  next
    case False
    with True ne dne show ?thesis
      by (simp add: loseRandomDie_def eligibleIndices_def isProtected_def Let_def)
  qed
next
  case False
  then have "indexOf (dice p) 4 = -1" by (simp add: indexOf_absent)
  with False show ?thesis
    by (simp add: loseRandomDie_def eligibleIndices_def isProtected_def Let_def)
qed


lemma eligibleIndices_member:
  assumes "k \<in> set (eligibleIndices p)"
  shows "k < length (dice p) \<and> (\<not> madeFirstChoice p \<longrightarrow> int k \<noteq> indexOf (dice p) 4)"
proof (cases "4 \<in> set (dice p)")
  case True
  with assms show ?thesis by (auto simp: eligibleIndices_def split: if_splits)
next
  case False
  then have "indexOf (dice p) 4 = -1" by (simp add: indexOf_absent)
  with assms False show ?thesis by (auto simp: eligibleIndices_def)
qed

lemma pickFrom_eq:
  "pickFrom el p g =
     (Some (dice p ! (el ! nat \<lfloor>g 0 * real (length el)\<rfloor>)),
      p\<lparr>dice := splice1 (el ! nat \<lfloor>g 0 * real (length el)\<rfloor>) (dice p)\<rparr>,
      \<lambda>n. g (Suc n))"
  by (simp add: pickFrom_def Math_random_def Let_def)


text \<open>
  A protected player holds exactly one die, a D4, however the class has built it; so it
  never holds more than one D4.
\<close>

lemma built_protected: "built p \<Longrightarrow> \<not> madeFirstChoice p \<Longrightarrow> dice p = [4]"
proof (induction rule: built.induct)
  case (b_new nm human)
  show ?case by (simp add: new_Player_def)
next
  case (b_roll p g)
  then show ?case by (simp add: rollForRound_eq)
next
  case (b_choice p choice)
  have "madeFirstChoice (snd (applyChoice choice p))" by (simp add: applyChoice_def Let_def)
  with b_choice.prems show ?case by simp
next
  case (b_lose p g)
  from loseRandomDie_cases [OF b_lose.hyps(2), of p] show ?case
  proof
    assume "loseRandomDie p g = (None, p, g)"
    with b_lose show ?thesis by simp
  next
    assume "\<exists>pick. pick < length (dice p) \<and>
        (isProtected p \<longrightarrow> int pick \<noteq> indexOf (dice p) 4) \<and>
        loseRandomDie p g =
          (Some (dice p ! pick), p\<lparr>dice := splice1 pick (dice p)\<rparr>, \<lambda>n. g (Suc n))"
    then obtain pick where pick: "pick < length (dice p)"
      "isProtected p \<longrightarrow> int pick \<noteq> indexOf (dice p) 4"
      "loseRandomDie p g =
          (Some (dice p ! pick), p\<lparr>dice := splice1 pick (dice p)\<rparr>, \<lambda>n. g (Suc n))"
      by blast
    from b_lose.prems pick(3) have n: "\<not> madeFirstChoice p" by simp
    with b_lose.IH have "dice p = [4]" by simp
    with pick(1,2) n have False by (simp add: isProtected_def)
    then show ?thesis ..
  qed
next
  case (b_chosen p d)
  then show ?case by simp
next
  case (b_eliminated p)
  then show ?case by simp
qed

lemma built_one_d4:
  "built p \<Longrightarrow> \<not> madeFirstChoice p \<Longrightarrow> count_list (dice p) 4 \<le> 1"
  using built_protected by fastforce

text \<open>
  Claim C2: \<^verbatim>\<open>loseRandomDie()\<close> never removes a lowest-tier die from a protected
  player (one who holds at most one D4, as every protected player does). The
  lowest-tier entry is excluded from the eligible set before the random pick: the index
  picked by the draw is an eligible one, not that of the D4, the die lost is not a D4 and
  the D4 is still held afterwards. If the D4 is the player's only die, nothing is lost
  and the player is unchanged.
\<close>

theorem loseRandomDie_protected:
  assumes "\<not> madeFirstChoice p" and "count_list (dice p) 4 \<le> 1" and "rng_ok g"
  shows "(dice p = [4] \<longrightarrow> loseRandomDie p g = (None, p, g)) \<and>
    (4 \<in> set (dice p) \<longrightarrow> nat (indexOf (dice p) 4) \<notin> set (eligibleIndices p)) \<and>
    (\<forall>d p' g'. loseRandomDie p g = (Some d, p', g') \<longrightarrow>
       d \<noteq> 4 \<and>
       (let pick = eligibleIndices p ! nat \<lfloor>g 0 * real (length (eligibleIndices p))\<rfloor>
        in pick \<in> set (eligibleIndices p) \<and> pick < length (dice p) \<and>
           int pick \<noteq> indexOf (dice p) 4 \<and>
           d = dice p ! pick \<and> p' = p\<lparr>dice := splice1 pick (dice p)\<rparr>) \<and>
       (4 \<in> set (dice p) \<longrightarrow> 4 \<in> set (dice p')))"
proof (intro conjI allI impI)
  assume "dice p = [4]"
  then show "loseRandomDie p g = (None, p, g)"
    using assms(1) by (simp add: loseRandomDie_def isProtected_def)
next
  assume "4 \<in> set (dice p)"
  then have "0 \<le> indexOf (dice p) 4" using indexOf_present [of 4 "dice p"] by simp
  then show "nat (indexOf (dice p) 4) \<notin> set (eligibleIndices p)"
    using eligibleIndices_member [of "nat (indexOf (dice p) 4)" p] assms(1) by auto
next
  fix d p' g'
  assume a: "loseRandomDie p g = (Some d, p', g')"
  let ?el = "eligibleIndices p"
  let ?pick = "?el ! nat \<lfloor>g 0 * real (length ?el)\<rfloor>"
  from a have ne: "?el \<noteq> []" by (auto simp: loseRandomDie_eq split: if_splits)
  with a have res: "d = dice p ! ?pick" "p' = p\<lparr>dice := splice1 ?pick (dice p)\<rparr>"
    by (simp_all add: loseRandomDie_eq pickFrom_eq)
  from assms(3) have "0 \<le> g 0" "g 0 < 1" by (simp_all add: rng_ok_def)
  with ne have "nat \<lfloor>g 0 * real (length ?el)\<rfloor> < length ?el" by (simp add: floor_pick)
  then have mem: "?pick \<in> set ?el" by simp
  from eligibleIndices_member [OF mem] assms(1)
  have pick: "?pick < length (dice p)" "int ?pick \<noteq> indexOf (dice p) 4" by simp_all
  show "let pick = eligibleIndices p ! nat \<lfloor>g 0 * real (length (eligibleIndices p))\<rfloor>
        in pick \<in> set (eligibleIndices p) \<and> pick < length (dice p) \<and>
           int pick \<noteq> indexOf (dice p) 4 \<and>
           d = dice p ! pick \<and> p' = p\<lparr>dice := splice1 pick (dice p)\<rparr>"
    using mem pick res by (simp add: Let_def)
  have still: "4 \<in> set (dice p) \<Longrightarrow> 4 \<in> set (dice p')"
  proof -
    assume in4: "4 \<in> set (dice p)"
    let ?k = "nat (indexOf (dice p) 4)"
    from in4 have k: "0 \<le> indexOf (dice p) 4" "?k < length (dice p)" "dice p ! ?k = 4"
      using indexOf_present [of 4 "dice p"] by simp_all
    from pick(2) k(1) have "?pick \<noteq> ?k" by auto
    from nth_in_splice1 [OF pick(1) k(2) this] k(3) res(2) show ?thesis by simp
  qed
  then show "4 \<in> set (dice p) \<Longrightarrow> 4 \<in> set (dice p')" .
  show "d \<noteq> 4"
  proof
    assume d4: "d = 4"
    then have at: "dice p ! ?pick = 4" using res(1) by simp
    then have in4: "4 \<in> set (dice p)" using pick(1) by (metis nth_mem)
    have "count (mset (dice p)) 4 = count (mset (splice1 ?pick (dice p))) 4 + 1"
      using mset_splice1 [OF pick(1)] at by simp
    moreover have "count (mset (splice1 ?pick (dice p))) 4 \<ge> 1"
      using still [OF in4] res(2) by (simp add: Suc_le_eq count_greater_zero_iff del: count_mset)
    ultimately show False using assms(2) by (simp add: count_mset)
  qed
qed

text \<open>
  Claim C10: \<^verbatim>\<open>loseRandomDie()\<close> on a player whose dice are empty returns the
  no-loss sentinel and leaves the player (and the random source) unchanged.
\<close>

theorem loseRandomDie_empty:
  "dice p = [] \<Longrightarrow> loseRandomDie p g = (None, p, g)"
  by (simp add: loseRandomDie_def)

theorem loseRandomDie_empty_witness:
  "dice (examplePlayer [] 4 True) = [] \<and>
   loseRandomDie (examplePlayer [] 4 True) (constRng 0) =
     (None, examplePlayer [] 4 True, constRng 0)"
proof -
  have h: "dice (examplePlayer [] 4 True) = []" by (simp add: examplePlayer_def)
  from loseRandomDie_empty [OF h] h show ?thesis by simp
qed

section \<open>Applying a choice\<close>

lemma DICE_SIDES_index:
  assumes "c \<in> set DICE_SIDES" "c \<noteq> 100"
  shows "\<exists>i. Suc i < length DICE_SIDES \<and> DICE_SIDES ! i = c \<and> indexOf DICE_SIDES c = int i"
  using assms by (auto simp: DICE_SIDES_def)

lemma indexOf_100: "indexOf DICE_SIDES 100 = 6"
  by (simp add: DICE_SIDES_def)

text \<open>
  Claim C6: for a player whose chosen die is among the dice (and is a tier of the table),
  \<^verbatim>\<open>applyChoice('upgrade')\<close> returns the chosen die, keeps the number of dice, sets
  \<^verbatim>\<open>madeFirstChoice\<close>, leaves the dice sorted descending, and replaces exactly one
  entry equal to the chosen die by its successor in \<^verbatim>\<open>DICE_SIDES\<close>; at the terminal
  tier (100) the dice stay as they are.
\<close>

theorem applyChoice_upgrade:
  assumes "chosenDie p \<in> set (dice p)"
    and "chosenDie p \<in> set DICE_SIDES"
  shows "fst (applyChoice ''upgrade'' p) = chosenDie p \<and>
     length (dice (snd (applyChoice ''upgrade'' p))) = length (dice p) \<and>
     madeFirstChoice (snd (applyChoice ''upgrade'' p)) \<and>
     sorted (rev (dice (snd (applyChoice ''upgrade'' p)))) \<and>
     (if chosenDie p = 100
      then mset (dice (snd (applyChoice ''upgrade'' p))) = mset (dice p)
      else (\<exists>i. Suc i < length DICE_SIDES \<and> DICE_SIDES ! i = chosenDie p \<and>
              mset (dice (snd (applyChoice ''upgrade'' p))) =
                mset (dice p) - {#chosenDie p#} + {#DICE_SIDES ! Suc i#}))"
proof -
  let ?c = "chosenDie p"
  let ?k = "nat (indexOf (dice p) ?c)"
  from assms(1) have present:
    "indexOf (dice p) ?c \<noteq> -1" "?k < length (dice p)" "dice p ! ?k = ?c"
    using indexOf_present [of ?c "dice p"] indexOf_absent [of "dice p" ?c] by simp_all
  show ?thesis
  proof (cases "?c = 100")
    case True
    have "(dice p)[?k := 100] = dice p" using present True by (metis list_update_id)
    then show ?thesis using present True
      by (simp add: applyChoice_def Let_def indexOf_100 mset_sortDesc length_sortDesc
          sorted_sortDesc DICE_SIDES_def)
  next
    case False
    from DICE_SIDES_index [OF assms(2) False] obtain i where
      i: "Suc i < length DICE_SIDES" "DICE_SIDES ! i = ?c" "indexOf DICE_SIDES ?c = int i"
      by blast
    have next_idx: "nat (min (int i + 1) (int (length DICE_SIDES) - 1)) = Suc i"
      using i(1) by simp
    have "mset ((dice p)[?k := DICE_SIDES ! Suc i]) =
        mset (dice p) - {#?c#} + {#DICE_SIDES ! Suc i#}"
      using present by (simp add: mset_update)
    then show ?thesis using present False i next_idx
      by (auto simp add: applyChoice_def Let_def mset_sortDesc length_sortDesc sorted_sortDesc)
  qed
qed

theorem applyChoice_upgrade_witness:
  "chosenDie (examplePlayer [6, 4] 4 False) \<in> set (dice (examplePlayer [6, 4] 4 False)) \<and>
   chosenDie (examplePlayer [6, 4] 4 False) \<in> set DICE_SIDES \<and>
   applyChoice ''upgrade'' (examplePlayer [6, 4] 4 False) = (4, examplePlayer [6, 6] 4 True) \<and>
   length (dice (snd (applyChoice ''upgrade'' (examplePlayer [6, 4] 4 False)))) = 2 \<and>
   madeFirstChoice (snd (applyChoice ''upgrade'' (examplePlayer [6, 4] 4 False)))"
proof -
  have h1: "chosenDie (examplePlayer [6, 4] 4 False) \<in> set (dice (examplePlayer [6, 4] 4 False))"
    by (simp add: examplePlayer_def)
  have h2: "chosenDie (examplePlayer [6, 4] 4 False) \<in> set DICE_SIDES"
    by (simp add: examplePlayer_def DICE_SIDES_def)
  have e: "applyChoice ''upgrade'' (examplePlayer [6, 4] 4 False) =
      (4, examplePlayer [6, 6] 4 True)"
    by (simp add: applyChoice_def examplePlayer_def DICE_SIDES_def sortDesc_def Let_def)
  have l: "length (dice (examplePlayer [6, 4] 4 False)) = 2" by (simp add: examplePlayer_def)
  from applyChoice_upgrade [OF h1 h2] l
  have "length (dice (snd (applyChoice ''upgrade'' (examplePlayer [6, 4] 4 False)))) = 2 \<and>
     madeFirstChoice (snd (applyChoice ''upgrade'' (examplePlayer [6, 4] 4 False)))"
    by simp
  with h1 h2 e show ?thesis by blast
qed

text \<open>
  Claim C7: \<^verbatim>\<open>applyChoice('duplicate')\<close> returns the chosen die, makes the dice one
  longer, adds one entry equal to the chosen die and leaves every other entry (as a
  multiset), and sets \<^verbatim>\<open>madeFirstChoice\<close>.
\<close>

theorem applyChoice_duplicate:
  "fst (applyChoice ''duplicate'' p) = chosenDie p \<and>
   length (dice (snd (applyChoice ''duplicate'' p))) = length (dice p) + 1 \<and>
   mset (dice (snd (applyChoice ''duplicate'' p))) = mset (dice p) + {#chosenDie p#} \<and>
   madeFirstChoice (snd (applyChoice ''duplicate'' p))"
  by (simp add: applyChoice_def Let_def mset_sortDesc length_sortDesc)

section \<open>The win condition\<close>

lemma findFirst_None: "(findFirst P xs = None) = (\<forall>x \<in> set xs. \<not> P x)"
  by (induction xs) auto

lemma findFirst_Some:
  "findFirst P xs = Some i \<Longrightarrow> i < length xs \<and> P (xs ! i) \<and> (\<forall>j < i. \<not> P (xs ! j))"
proof (induction xs arbitrary: i)
  case Nil
  then show ?case by simp
next
  case (Cons x xs)
  show ?case
  proof (cases "P x")
    case True
    with Cons.prems show ?thesis by simp
  next
    case False
    with Cons.prems obtain k where k: "findFirst P xs = Some k" "i = Suc k" by auto
    from Cons.IH [OF k(1)] have ih: "k < length xs" "P (xs ! k)" "\<forall>j < k. \<not> P (xs ! j)"
      by simp_all
    show ?thesis using ih k(2) False by (auto simp: less_Suc_eq_0_disj)
  qed
qed

lemma activeOf_players:
  "map (\<lambda>i. players s ! i) (activeOf s) = filter (\<lambda>p. \<not> eliminated p) (players s)"
proof -
  have "filter (\<lambda>p. \<not> eliminated p) (map (\<lambda>i. players s ! i) [0..<length (players s)]) =
      map (\<lambda>i. players s ! i) (activeOf s)"
    by (simp add: activeOf_def filter_map comp_def)
  then show ?thesis by (simp add: map_nth)
qed

lemma length_activeOf:
  "length (activeOf s) = length (filter (\<lambda>p. \<not> eliminated p) (players s))"
  using activeOf_players [of s] by (metis length_map)

lemma set_activeOf:
  "set (activeOf s) = {i. i < length (players s) \<and> \<not> eliminated (players s ! i)}"
  by (auto simp: activeOf_def)

lemma distinct_activeOf: "distinct (activeOf s)"
  by (simp add: activeOf_def)

lemma checkWinCondition_players:
  assumes "checkWinCondition s = Inr (s', u)"
  shows "players s' = players s \<and> pool s' = pool s \<and>
    (u = ShowContinue \<or> (\<exists>w. u = WinScreen w))"
  using assms
  by (auto simp: checkWinCondition_def endGame_def Let_def split: option.splits if_splits list.splits)

lemma checkWinCondition_total:
  assumes "players s \<noteq> []"
  shows "\<exists>s' u. checkWinCondition s = Inr (s', u)"
  using assms
  by (auto simp: checkWinCondition_def endGame_def Let_def split: option.splits if_splits list.splits)

text \<open>
  Claim C3: the win evaluator checks its conditions in order and only the first that
  holds fires. If some player, eliminated or not, holds the target number of D100s, the
  first such player in \<open>players\<close> wins. Otherwise, if exactly one player is not
  eliminated, that player wins. Otherwise, if the human player is eliminated, the game
  ends with no winner. Otherwise the game continues. Hence a winner is declared exactly
  when one of the first two conditions holds, and the game ends exactly when one of the
  three holds.
\<close>

theorem checkWinCondition_spec:
  assumes "players s \<noteq> []"
  shows "(targetReached s \<longrightarrow>
      (\<exists>i. i < length (players s) \<and> targetD100s (difficulty s) \<le> d100Count (players s ! i) \<and>
         (\<forall>j < i. d100Count (players s ! j) < targetD100s (difficulty s)) \<and>
         checkWinCondition s = Inr (s\<lparr>phase := Over\<rparr>, WinScreen (Some i)))) \<and>
    (\<not> targetReached s \<and> oneSurvivor s \<longrightarrow>
      (\<exists>i. i < length (players s) \<and> \<not> eliminated (players s ! i) \<and>
         (\<forall>j < length (players s). j \<noteq> i \<longrightarrow> eliminated (players s ! j)) \<and>
         checkWinCondition s = Inr (s\<lparr>phase := Over\<rparr>, WinScreen (Some i)))) \<and>
    (\<not> targetReached s \<and> \<not> oneSurvivor s \<and> humanOut s \<longrightarrow>
      checkWinCondition s = Inr (s\<lparr>phase := Over\<rparr>, WinScreen None)) \<and>
    (\<not> targetReached s \<and> \<not> oneSurvivor s \<and> \<not> humanOut s \<longrightarrow>
      checkWinCondition s = Inr (s\<lparr>phase := Continue\<rparr>, ShowContinue)) \<and>
    ((\<exists>i. checkWinCondition s = Inr (s\<lparr>phase := Over\<rparr>, WinScreen (Some i))) =
       (targetReached s \<or> oneSurvivor s)) \<and>
    ((\<exists>w. checkWinCondition s = Inr (s\<lparr>phase := Over\<rparr>, WinScreen w)) =
       (targetReached s \<or> oneSurvivor s \<or> humanOut s))"
proof -
  let ?P = "\<lambda>p. targetD100s (difficulty s) \<le> d100Count p"
  from assms obtain human rest where ps: "players s = human # rest" by (cases "players s") auto
  have c1: "targetReached s \<Longrightarrow>
      \<exists>i. i < length (players s) \<and> ?P (players s ! i) \<and>
         (\<forall>j < i. d100Count (players s ! j) < targetD100s (difficulty s)) \<and>
         checkWinCondition s = Inr (s\<lparr>phase := Over\<rparr>, WinScreen (Some i))"
  proof -
    assume "targetReached s"
    then have "findFirst ?P (players s) \<noteq> None"
      by (simp add: findFirst_None targetReached_def)
    then obtain i where i: "findFirst ?P (players s) = Some i" by auto
    from findFirst_Some [OF i] have "i < length (players s)" "?P (players s ! i)"
      "\<forall>j < i. d100Count (players s ! j) < targetD100s (difficulty s)"
      by (simp_all add: not_le)
    moreover have "checkWinCondition s = Inr (s\<lparr>phase := Over\<rparr>, WinScreen (Some i))"
      using i by (simp add: checkWinCondition_def endGame_def)
    ultimately show ?thesis by blast
  qed
  have none: "\<not> targetReached s \<Longrightarrow> findFirst ?P (players s) = None"
    by (simp add: findFirst_None targetReached_def)
  have c2: "\<not> targetReached s \<Longrightarrow> oneSurvivor s \<Longrightarrow>
      \<exists>i. i < length (players s) \<and> \<not> eliminated (players s ! i) \<and>
         (\<forall>j < length (players s). j \<noteq> i \<longrightarrow> eliminated (players s ! j)) \<and>
         checkWinCondition s = Inr (s\<lparr>phase := Over\<rparr>, WinScreen (Some i))"
  proof -
    assume nt: "\<not> targetReached s" and one: "oneSurvivor s"
    then have len: "length (activeOf s) = 1" by (simp add: length_activeOf oneSurvivor_def)
    then obtain i where i: "activeOf s = [i]" by (cases "activeOf s") auto
    from set_activeOf [of s] i
    have set: "{j. j < length (players s) \<and> \<not> eliminated (players s ! j)} = {i}" by simp
    then have "i < length (players s)" "\<not> eliminated (players s ! i)"
      "\<forall>j < length (players s). j \<noteq> i \<longrightarrow> eliminated (players s ! j)" by auto
    moreover have "checkWinCondition s = Inr (s\<lparr>phase := Over\<rparr>, WinScreen (Some i))"
      using none [OF nt] len i by (simp add: checkWinCondition_def endGame_def Let_def)
    ultimately show ?thesis by blast
  qed
  have c3: "\<not> targetReached s \<Longrightarrow> \<not> oneSurvivor s \<Longrightarrow> humanOut s \<Longrightarrow>
      checkWinCondition s = Inr (s\<lparr>phase := Over\<rparr>, WinScreen None)"
    using none ps
    by (simp add: checkWinCondition_def endGame_def Let_def length_activeOf oneSurvivor_def
        humanOut_def)
  have c4: "\<not> targetReached s \<Longrightarrow> \<not> oneSurvivor s \<Longrightarrow> \<not> humanOut s \<Longrightarrow>
      checkWinCondition s = Inr (s\<lparr>phase := Continue\<rparr>, ShowContinue)"
    using none ps
    by (simp add: checkWinCondition_def endGame_def Let_def length_activeOf oneSurvivor_def
        humanOut_def)
  have i1: "(\<exists>i. checkWinCondition s = Inr (s\<lparr>phase := Over\<rparr>, WinScreen (Some i))) =
       (targetReached s \<or> oneSurvivor s)"
  proof (cases "targetReached s \<or> oneSurvivor s")
    case True
    then show ?thesis using c1 c2 by blast
  next
    case False
    then have "checkWinCondition s = Inr (s\<lparr>phase := Over\<rparr>, WinScreen None) \<or>
        checkWinCondition s = Inr (s\<lparr>phase := Continue\<rparr>, ShowContinue)"
      using c3 c4 by blast
    then show ?thesis using False by auto
  qed
  have i2: "(\<exists>w. checkWinCondition s = Inr (s\<lparr>phase := Over\<rparr>, WinScreen w)) =
       (targetReached s \<or> oneSurvivor s \<or> humanOut s)"
  proof (cases "targetReached s \<or> oneSurvivor s \<or> humanOut s")
    case True
    then show ?thesis using c1 c2 c3 by blast
  next
    case False
    then have "checkWinCondition s = Inr (s\<lparr>phase := Continue\<rparr>, ShowContinue)"
      using c4 by blast
    then show ?thesis using False by auto
  qed
  from c1 c2 c3 c4 i1 i2 show ?thesis by blast
qed

theorem checkWinCondition_spec_witness:
  "players (exampleState [exampleHuman [6] 6 True, examplePlayer [4] 4 False] Easy) \<noteq> [] \<and>
   checkWinCondition (exampleState [exampleHuman [6] 6 True, examplePlayer [4] 4 False] Easy) =
     Inr ((exampleState [exampleHuman [6] 6 True, examplePlayer [4] 4 False] Easy)\<lparr>phase := Continue\<rparr>,
          ShowContinue) \<and>
   players (exampleState [exampleHuman [100] 100 True, examplePlayer [4] 4 False] Easy) \<noteq> [] \<and>
   (\<exists>w. checkWinCondition (exampleState [exampleHuman [100] 100 True, examplePlayer [4] 4 False] Easy) =
     Inr ((exampleState [exampleHuman [100] 100 True, examplePlayer [4] 4 False] Easy)\<lparr>phase := Over\<rparr>,
          WinScreen w))"
proof -
  let ?s = "exampleState [exampleHuman [6] 6 True, examplePlayer [4] 4 False] Easy"
  let ?t = "exampleState [exampleHuman [100] 100 True, examplePlayer [4] 4 False] Easy"
  have h: "players ?s \<noteq> []" by (simp add: exampleState_def)
  have n: "\<not> targetReached ?s \<and> \<not> oneSurvivor ?s \<and> \<not> humanOut ?s"
    by (simp add: targetReached_def oneSurvivor_def humanOut_def exampleState_def
        exampleHuman_def examplePlayer_def d100Count_def)
  have h': "players ?t \<noteq> []" by (simp add: exampleState_def)
  have n': "targetReached ?t"
    by (simp add: targetReached_def exampleState_def exampleHuman_def d100Count_def)
  from checkWinCondition_spec [OF h] n
  have r: "checkWinCondition ?s = Inr (?s\<lparr>phase := Continue\<rparr>, ShowContinue)" by blast
  from checkWinCondition_spec [OF h'] n'
  have r': "\<exists>w. checkWinCondition ?t = Inr (?t\<lparr>phase := Over\<rparr>, WinScreen w)" by blast
  from h r h' r' show ?thesis by blast
qed

section \<open>The human's choice\<close>






section \<open>Round resolution\<close>

lemma rng_ok_tail: "rng_ok g \<Longrightarrow> rng_ok (\<lambda>n. g (Suc n))"
  by (simp add: rng_ok_def)

lemma loserStep_effect:
  assumes "rng_ok (acc_rng a)"
  shows "\<exists>lost p'. lossOutcome (players (acc_state a) ! i) lost p' \<and>
     acc_state (loserStep i a) =
       (acc_state a)\<lparr>pool := pool (acc_state a) @ (case lost of None \<Rightarrow> [] | Some d \<Rightarrow> [d]),
                      players := (players (acc_state a))[i := p']\<rparr> \<and>
     acc_lost (loserStep i a) = acc_lost a @ [(i, lost)] \<and>
     rng_ok (acc_rng (loserStep i a))"
proof -
  let ?p = "players (acc_state a) ! i"
  from loseRandomDie_cases [OF assms, of ?p]
  show ?thesis
  proof
    assume n: "loseRandomDie ?p (acc_rng a) = (None, ?p, acc_rng a)"
    have "lossOutcome ?p None (eliminateIfEmpty ?p)" by (simp add: lossOutcome_def)
    moreover have "acc_state (loserStep i a) =
       (acc_state a)\<lparr>pool := pool (acc_state a) @ [],
                      players := (players (acc_state a))[i := eliminateIfEmpty ?p]\<rparr>"
      using n by (simp add: loserStep_def Let_def eliminateIfEmpty_def)
    moreover have "acc_lost (loserStep i a) = acc_lost a @ [(i, None)]"
      using n by (simp add: loserStep_def Let_def)
    moreover have "rng_ok (acc_rng (loserStep i a))"
      using n assms by (simp add: loserStep_def Let_def)
    ultimately show ?thesis by (metis option.simps(4))
  next
    assume "\<exists>pick. pick < length (dice ?p) \<and>
        (isProtected ?p \<longrightarrow> int pick \<noteq> indexOf (dice ?p) 4) \<and>
        loseRandomDie ?p (acc_rng a) =
          (Some (dice ?p ! pick), ?p\<lparr>dice := splice1 pick (dice ?p)\<rparr>, \<lambda>n. acc_rng a (Suc n))"
    then obtain pick where pick: "pick < length (dice ?p)"
      "isProtected ?p \<longrightarrow> int pick \<noteq> indexOf (dice ?p) 4"
      "loseRandomDie ?p (acc_rng a) =
          (Some (dice ?p ! pick), ?p\<lparr>dice := splice1 pick (dice ?p)\<rparr>, \<lambda>n. acc_rng a (Suc n))"
      by blast
    let ?p' = "eliminateIfEmpty (?p\<lparr>dice := splice1 pick (dice ?p)\<rparr>)"
    have "lossOutcome ?p (Some (dice ?p ! pick)) ?p'"
      using pick(1,2) by (auto simp: lossOutcome_def)
    moreover have "acc_state (loserStep i a) =
       (acc_state a)\<lparr>pool := pool (acc_state a) @ [dice ?p ! pick],
                      players := (players (acc_state a))[i := ?p']\<rparr>"
      using pick(3) by (simp add: loserStep_def Let_def eliminateIfEmpty_def)
    moreover have "acc_lost (loserStep i a) = acc_lost a @ [(i, Some (dice ?p ! pick))]"
      using pick(3) by (simp add: loserStep_def Let_def)
    moreover have "rng_ok (acc_rng (loserStep i a))"
      using pick(3) assms by (simp add: loserStep_def Let_def rng_ok_tail)
    ultimately show ?thesis by (metis option.simps(5))
  qed
qed

lemma fold_loserStep:
  assumes "rng_ok (acc_rng a)" "distinct ls" "\<forall>i \<in> set ls. i < length (players (acc_state a))"
  shows "\<exists>news. acc_lost (fold loserStep ls a) = acc_lost a @ news \<and>
     map fst news = ls \<and>
     pool (acc_state (fold loserStep ls a)) = pool (acc_state a) @ List.map_filter snd news \<and>
     length (players (acc_state (fold loserStep ls a))) = length (players (acc_state a)) \<and>
     (\<forall>j. j \<notin> set ls \<longrightarrow>
        players (acc_state (fold loserStep ls a)) ! j = players (acc_state a) ! j) \<and>
     (\<forall>k < length ls.
        lossOutcome (players (acc_state a) ! (ls ! k)) (snd (news ! k))
          (players (acc_state (fold loserStep ls a)) ! (ls ! k))) \<and>
     phase (acc_state (fold loserStep ls a)) = phase (acc_state a) \<and>
     difficulty (acc_state (fold loserStep ls a)) = difficulty (acc_state a) \<and>
     round' (acc_state (fold loserStep ls a)) = round' (acc_state a) \<and>
     numOpponents (acc_state (fold loserStep ls a)) = numOpponents (acc_state a) \<and>
     rng_ok (acc_rng (fold loserStep ls a))"
  using assms
proof (induction ls arbitrary: a)
  case Nil
  then show ?case by (simp add: map_filter_simps)
next
  case (Cons i rest)
  let ?a1 = "loserStep i a"
  let ?f = "fold loserStep rest ?a1"
  from loserStep_effect [OF Cons.prems(1), of i] obtain lost p' where
    st: "lossOutcome (players (acc_state a) ! i) lost p'"
      "acc_state ?a1 =
       (acc_state a)\<lparr>pool := pool (acc_state a) @ (case lost of None \<Rightarrow> [] | Some d \<Rightarrow> [d]),
                      players := (players (acc_state a))[i := p']\<rparr>"
      "acc_lost ?a1 = acc_lost a @ [(i, lost)]"
      "rng_ok (acc_rng ?a1)" by blast
  from Cons.prems have i: "i < length (players (acc_state a))" "i \<notin> set rest"
    and d: "distinct rest" by simp_all
  have len1: "length (players (acc_state ?a1)) = length (players (acc_state a))"
    by (simp add: st(2))
  have other1: "\<And>j. j \<noteq> i \<Longrightarrow> players (acc_state ?a1) ! j = players (acc_state a) ! j"
    by (simp add: st(2))
  have at1: "players (acc_state ?a1) ! i = p'" using i(1) by (simp add: st(2))
  have pool1: "pool (acc_state ?a1) =
      pool (acc_state a) @ (case lost of None \<Rightarrow> [] | Some d \<Rightarrow> [d])"
    by (simp add: st(2))
  have f1: "phase (acc_state ?a1) = phase (acc_state a)"
    "difficulty (acc_state ?a1) = difficulty (acc_state a)"
    "round' (acc_state ?a1) = round' (acc_state a)"
    "numOpponents (acc_state ?a1) = numOpponents (acc_state a)"
    by (simp_all add: st(2))
  have b: "\<forall>j \<in> set rest. j < length (players (acc_state ?a1))"
    using Cons.prems(3) len1 by simp
  from Cons.IH [OF st(4) d b] obtain news where
    ih: "acc_lost ?f = acc_lost ?a1 @ news" "map fst news = rest"
      "pool (acc_state ?f) = pool (acc_state ?a1) @ List.map_filter snd news"
      "length (players (acc_state ?f)) = length (players (acc_state ?a1))"
      "\<forall>j. j \<notin> set rest \<longrightarrow> players (acc_state ?f) ! j = players (acc_state ?a1) ! j"
      "\<forall>k < length rest.
        lossOutcome (players (acc_state ?a1) ! (rest ! k)) (snd (news ! k))
          (players (acc_state ?f) ! (rest ! k))"
      "phase (acc_state ?f) = phase (acc_state ?a1)"
      "difficulty (acc_state ?f) = difficulty (acc_state ?a1)"
      "round' (acc_state ?f) = round' (acc_state ?a1)"
      "numOpponents (acc_state ?f) = numOpponents (acc_state ?a1)"
      "rng_ok (acc_rng ?f)" by blast
  let ?news = "(i, lost) # news"
  have c1: "acc_lost ?f = acc_lost a @ ?news" by (simp add: ih(1) st(3))
  have c2: "map fst ?news = i # rest" by (simp add: ih(2))
  have c3: "pool (acc_state ?f) = pool (acc_state a) @ List.map_filter snd ?news"
    by (cases lost) (simp_all add: ih(3) pool1 map_filter_simps)
  have c4: "length (players (acc_state ?f)) = length (players (acc_state a))"
    by (simp add: ih(4) len1)
  have c5: "\<forall>j. j \<notin> set (i # rest) \<longrightarrow> players (acc_state ?f) ! j = players (acc_state a) ! j"
    using ih(5) other1 by simp
  have c6: "\<forall>k < length (i # rest).
        lossOutcome (players (acc_state a) ! ((i # rest) ! k)) (snd (?news ! k))
          (players (acc_state ?f) ! ((i # rest) ! k))"
  proof (intro allI impI)
    fix k assume k: "k < length (i # rest)"
    show "lossOutcome (players (acc_state a) ! ((i # rest) ! k)) (snd (?news ! k))
          (players (acc_state ?f) ! ((i # rest) ! k))"
    proof (cases k)
      case 0
      have "players (acc_state ?f) ! i = p'" using ih(5) i(2) at1 by simp
      then show ?thesis using 0 st(1) by simp
    next
      case (Suc k')
      then have k': "k' < length rest" using k by simp
      then have "rest ! k' \<noteq> i" using i(2) by (metis nth_mem)
      then have eq: "players (acc_state ?a1) ! (rest ! k') = players (acc_state a) ! (rest ! k')"
        by (rule other1)
      from ih(6) k' have "lossOutcome (players (acc_state ?a1) ! (rest ! k')) (snd (news ! k'))
          (players (acc_state ?f) ! (rest ! k'))" by blast
      then have "lossOutcome (players (acc_state a) ! (rest ! k')) (snd (news ! k'))
          (players (acc_state ?f) ! (rest ! k'))" by (simp only: eq)
      then show ?thesis using Suc by simp
    qed
  qed
  show ?case
    apply (rule exI [of _ ?news])
    using c1 c2 c3 c4 c5 c6 ih(7-11) f1 by simp
qed

lemma fold_max_score:
  "(let M = fold (\<lambda>i m. if f i > m then f i else m) xs (m0::int)
    in m0 \<le> M \<and> (\<forall>i \<in> set xs. f i \<le> M) \<and> (M = m0 \<or> M \<in> f ` set xs))"
proof (induction xs arbitrary: m0)
  case Nil
  show ?case by simp
next
  case (Cons x xs)
  let ?m1 = "if f x > m0 then f x else m0"
  from Cons.IH [of ?m1] show ?case by (auto simp: Let_def split: if_splits)
qed

lemma maxScoreOf_spec:
  assumes "active \<noteq> []" "\<forall>i \<in> set active. 0 \<le> roundScore (ps ! i)"
  shows "maxScoreOf ps active = Max ((\<lambda>i. roundScore (ps ! i)) ` set active)"
proof -
  let ?f = "\<lambda>i. roundScore (ps ! i)"
  let ?M = "maxScoreOf ps active"
  from fold_max_score [of ?f active "-1"]
  have m: "-1 \<le> ?M" "\<forall>i \<in> set active. ?f i \<le> ?M" "?M = -1 \<or> ?M \<in> ?f ` set active"
    by (simp_all add: maxScoreOf_def Let_def)
  from assms obtain i where i: "i \<in> set active" by (cases active) auto
  with assms(2) m(2) have "0 \<le> ?M" by force
  with m(3) have mem: "?M \<in> ?f ` set active" by auto
  have "Max (?f ` set active) = ?M"
    by (rule Max_eqI) (use m(2) mem in auto)
  then show ?thesis by simp
qed

lemma tiedOf_nonempty:
  assumes "active \<noteq> []" "\<forall>i \<in> set active. 0 \<le> roundScore (ps ! i)"
  shows "tiedOf ps active \<noteq> []"
proof -
  have "finite ((\<lambda>i. roundScore (ps ! i)) ` set active)" "(\<lambda>i. roundScore (ps ! i)) ` set active \<noteq> {}"
    using assms(1) by simp_all
  then have "Max ((\<lambda>i. roundScore (ps ! i)) ` set active) \<in> (\<lambda>i. roundScore (ps ! i)) ` set active"
    by (rule Max_in)
  then obtain i where "i \<in> set active" "roundScore (ps ! i) = maxScoreOf ps active"
    using maxScoreOf_spec [OF assms] by auto
  then have "i \<in> set (tiedOf ps active)" by (simp add: tiedOf_def)
  then show ?thesis by auto
qed






section \<open>The invariant of a session\<close>

lemma playerInv_core: "coreOf p' = coreOf p \<Longrightarrow> playerInv p' = playerInv p"
  by (simp add: coreOf_def playerInv_def)

lemma coreInv_index:
  "coreInv ps = (ps \<noteq> [] \<and> (\<forall>i < length ps. playerInv (ps ! i) \<and> isHuman (ps ! i) = (i = 0)))"
  by (auto simp: coreInv_def all_set_conv_all_nth)

lemma coreInv_cong:
  assumes "map coreOf ps' = map coreOf ps" "coreInv ps"
  shows "coreInv ps'"
proof -
  from assms(1) have len: "length ps' = length ps" by (metis length_map)
  have "\<And>i. i < length ps \<Longrightarrow> coreOf (ps' ! i) = coreOf (ps ! i)"
    using assms(1) len by (metis nth_map)
  then have "\<And>i. i < length ps \<Longrightarrow> playerInv (ps' ! i) = playerInv (ps ! i) \<and>
      isHuman (ps' ! i) = isHuman (ps ! i)"
    by (simp add: coreOf_def playerInv_def)
  with assms(2) len show ?thesis by (auto simp: coreInv_index)
qed

lemma coreInv_update:
  assumes "coreInv ps" "playerInv p'" "isHuman p' = isHuman (ps ! i)"
  shows "coreInv (ps[i := p'])"
proof (cases "i < length ps")
  case True
  have "\<And>j. j < length ps \<Longrightarrow>
      playerInv (ps[i := p'] ! j) \<and> isHuman (ps[i := p'] ! j) = (j = 0)"
  proof -
    fix j assume j: "j < length ps"
    show "playerInv (ps[i := p'] ! j) \<and> isHuman (ps[i := p'] ! j) = (j = 0)"
    proof (cases "j = i")
      case True
      then show ?thesis using assms j by (simp add: coreInv_index)
    next
      case False
      then show ?thesis using assms(1) j by (simp add: coreInv_index)
    qed
  qed
  then show ?thesis using assms(1) by (simp add: coreInv_index)
next
  case False
  then show ?thesis using assms(1) by (simp add: list_update_beyond not_less)
qed

lemma activeOf_cong:
  assumes "map coreOf (players s') = map coreOf (players s)"
  shows "activeOf s' = activeOf s"
proof -
  from assms have len: "length (players s') = length (players s)" by (metis length_map)
  have "\<And>i. i < length (players s) \<Longrightarrow> coreOf (players s' ! i) = coreOf (players s ! i)"
    using assms len by (metis nth_map)
  then have "\<And>i. i < length (players s) \<Longrightarrow>
      eliminated (players s' ! i) = eliminated (players s ! i)"
    by (simp add: coreOf_def)
  then show ?thesis unfolding activeOf_def len by (intro filter_cong) auto
qed

lemma map_coreOf_update:
  assumes "coreOf p' = coreOf (ps ! i)"
  shows "map coreOf (ps[i := p']) = map coreOf ps"
proof (cases "i < length ps")
  case True
  then show ?thesis using assms by (simp add: map_update list_update_same_conv)
next
  case False
  then show ?thesis by (simp add: list_update_beyond not_less)
qed

lemma coreOf_rollForRound: "coreOf (fst (rollForRound p g)) = coreOf p"
  by (simp add: rollForRound_eq coreOf_def)

lemma rollAt_core: "map coreOf (fst (rollAt i (ps, g))) = map coreOf ps"
proof -
  have "fst (rollAt i (ps, g)) = ps[i := fst (rollForRound (ps ! i) g)]"
    by (simp add: rollAt_def split: prod.splits)
  then show ?thesis by (simp add: map_coreOf_update coreOf_rollForRound)
qed

lemma fold_rollAt_core: "map coreOf (fst (fold rollAt active (ps, g))) = map coreOf ps"
proof (induction active arbitrary: ps g)
  case Nil
  show ?case by simp
next
  case (Cons i rest)
  obtain ps1 g1 where st: "rollAt i (ps, g) = (ps1, g1)" by (cases "rollAt i (ps, g)")
  then have "map coreOf ps1 = map coreOf ps" using rollAt_core [of i ps g] by simp
  then show ?case using Cons.IH [of ps1 g1] st by simp
qed

lemma executeRound_inv:
  assumes "coreInv (players s)" "executeRound s g = ((s', u), g')"
  shows "sessionInv s' u"
proof -
  let ?s1 = "s\<lparr>phase := Rolling\<rparr>"
  let ?r = "fold rollAt (activeOf ?s1) (players ?s1, g)"
  from assms(2) have s': "s' = ?s1\<lparr>players := fst ?r\<rparr>" and u: "u = TimerResolve (activeOf ?s1)"
    by (auto simp: executeRound_def Let_def split: prod.splits)
  have core: "map coreOf (players s') = map coreOf (players ?s1)"
    using fold_rollAt_core [of "activeOf ?s1" "players ?s1" g] by (simp add: s')
  then have "coreInv (players s')" using assms(1) coreInv_cong by simp
  moreover have "activeOf s' = activeOf ?s1" using core by (rule activeOf_cong)
  ultimately show ?thesis by (simp add: sessionInv_def pendingInv_def u)
qed

lemma startRound_inv:
  assumes "coreInv (players s)" "startRound s = Inr (s', u)"
  shows "sessionInv s' u"
proof -
  let ?f = "\<lambda>p. if \<not> isHuman p \<and> \<not> eliminated p then p\<lparr>chosenDie := bestDie p\<rparr> else p"
  have f: "\<And>p. coreOf (?f p) = coreOf p" by (simp add: coreOf_def)
  have m: "map coreOf (map ?f (players s)) = map coreOf (players s)"
    by (simp add: f comp_def del: if_split cong: if_cong)
  from assms(2) have u: "u = ShowRollSection \<or> u = ShowDieSelector"
    by (auto simp: startRound_def Let_def split: list.splits if_splits)
  from assms(2) have "players s' = map ?f (players s) \<or>
      (\<exists>human rest d. map ?f (players s) = human # rest \<and>
         players s' = human\<lparr>chosenDie := d\<rparr> # rest)"
    by (auto simp: startRound_def Let_def split: list.splits if_splits)
  then have "map coreOf (players s') = map coreOf (map ?f (players s))"
    by (auto simp: coreOf_def)
  with m have "map coreOf (players s') = map coreOf (players s)" by simp
  then have "coreInv (players s')" using assms(1) coreInv_cong by blast
  with u show ?thesis by (auto simp: sessionInv_def pendingInv_def)
qed

lemma selectDie_inv:
  assumes "coreInv (players s)" "selectDie sides s = Inr (s', u)"
  shows "sessionInv s' u"
proof -
  from assms(2) obtain human rest where
    "players s = human # rest" "players s' = human\<lparr>chosenDie := sides\<rparr> # rest"
    "u = ShowRollSection"
    by (auto simp: selectDie_def split: list.splits)
  then have "map coreOf (players s') = map coreOf (players s)" "u = ShowRollSection"
    by (simp_all add: coreOf_def)
  then show ?thesis using assms(1) coreInv_cong by (auto simp: sessionInv_def pendingInv_def)
qed

lemma initGame_inv:
  assumes "initGame d n names = Inr (s, u)"
  shows "sessionInv s u"
proof -
  let ?ps = "new_Player ''You'' True # map (\<lambda>i. new_Player (nameAt names i) False) [0..<n]"
  have "coreInv ?ps"
    by (auto simp: coreInv_index new_Player_def playerInv_def nth_Cons split: nat.splits)
  then show ?thesis using assms startRound_inv unfolding initGame_def
    by (metis game_state.select_convs(1))
qed

lemma lossOutcome_inv:
  assumes "lossOutcome p lost p'" "playerInv p" "\<not> eliminated p"
  shows "playerInv p' \<and> isHuman p' = isHuman p"
proof (cases lost)
  case None
  with assms show ?thesis by (simp add: lossOutcome_def eliminateIfEmpty_def playerInv_def)
next
  case (Some d)
  with assms(1) obtain pick where pick: "pick < length (dice p)"
    "isProtected p \<longrightarrow> int pick \<noteq> indexOf (dice p) 4"
    "p' = eliminateIfEmpty (p\<lparr>dice := splice1 pick (dice p)\<rparr>)"
    by (auto simp: lossOutcome_def)
  have made: "madeFirstChoice p"
  proof (rule ccontr)
    assume n: "\<not> madeFirstChoice p"
    with assms(2) have "dice p = [4]" by (simp add: playerInv_def)
    with pick(1,2) n show False by (simp add: isProtected_def)
  qed
  show ?thesis using pick(3) made assms(3)
    by (simp add: eliminateIfEmpty_def playerInv_def)
qed

lemma resolveRound_players:
  assumes "resolveRound active s g = Inr res" "rng_ok g" "distinct active"
    and "\<forall>i \<in> set active. i < length (players s)"
  shows "res_pending res = TimerChoice (res_winner res) \<and>
    res_winner res \<in> set active \<and>
    length (players (res_state res)) = length (players s) \<and>
    players (res_state res) ! res_winner res = players s ! res_winner res \<and>
    (\<forall>j. players (res_state res) ! j = players s ! j \<or>
       (j \<in> set active \<and>
        (\<exists>lost. lossOutcome (players s ! j) lost (players (res_state res) ! j))))"
proof -
  let ?tied = "tiedOf (players s) active"
  let ?k = "nat \<lfloor>g 0 * real (length ?tied)\<rfloor>"
  let ?w = "?tied ! ?k"
  let ?losers = "filter (\<lambda>i. i \<noteq> ?w) active"
  let ?start = "\<lparr> acc_state = s\<lparr>phase := Resolving\<rparr>, acc_losses = [], acc_lost = [],
               acc_rng = \<lambda>n. g (Suc n) \<rparr>"
  let ?a = "fold loserStep ?losers ?start"
  from assms(1) have k: "?k < length ?tied"
    by (auto simp: resolveRound_def Math_random_def Let_def split: if_splits)
  with assms(1) have res: "res_state res = acc_state ?a" "res_pending res = TimerChoice ?w"
    "res_winner res = ?w"
    by (auto simp: resolveRound_def Math_random_def Let_def)
  from k have "?w \<in> set ?tied" by simp
  then have w_active: "?w \<in> set active" by (simp add: tiedOf_def)
  have pre: "rng_ok (acc_rng ?start)" "distinct ?losers"
    "\<forall>i \<in> set ?losers. i < length (players (acc_state ?start))"
    using assms(2,3,4) by (simp_all add: rng_ok_tail)
  from fold_loserStep [OF pre] obtain news where
    f: "map fst news = ?losers"
      "length (players (acc_state ?a)) = length (players s)"
      "\<forall>j. j \<notin> set ?losers \<longrightarrow> players (acc_state ?a) ! j = players s ! j"
      "\<forall>k < length ?losers.
        lossOutcome (players s ! (?losers ! k)) (snd (news ! k))
          (players (acc_state ?a) ! (?losers ! k))"
    by auto
  have each: "\<And>j. players (acc_state ?a) ! j = players s ! j \<or>
       (j \<in> set active \<and> (\<exists>lost. lossOutcome (players s ! j) lost (players (acc_state ?a) ! j)))"
  proof -
    fix j
    show "players (acc_state ?a) ! j = players s ! j \<or>
       (j \<in> set active \<and> (\<exists>lost. lossOutcome (players s ! j) lost (players (acc_state ?a) ! j)))"
    proof (cases "j \<in> set ?losers")
      case False
      with f(3) show ?thesis by blast
    next
      case True
      then obtain k where kk: "k < length ?losers" "?losers ! k = j"
        by (metis in_set_conv_nth)
      with f(4) have "lossOutcome (players s ! j) (snd (news ! k)) (players (acc_state ?a) ! j)"
        by blast
      moreover from True have "j \<in> set active" by simp
      ultimately show ?thesis by blast
    qed
  qed
  have "players (acc_state ?a) ! ?w = players s ! ?w" using f(3) by simp
  with res w_active f(2) each show ?thesis by simp
qed

lemma resolveRound_inv:
  assumes "sessionInv s (TimerResolve active)" "rng_ok g" "resolveRound active s g = Inr res"
  shows "sessionInv (res_state res) (res_pending res)"
proof -
  from assms(1) have act: "active = activeOf s" and core: "coreInv (players s)"
    by (simp_all add: sessionInv_def pendingInv_def)
  have d: "distinct active" and b: "\<forall>i \<in> set active. i < length (players s)"
    by (simp_all add: act distinct_activeOf set_activeOf)
  from resolveRound_players [OF assms(3,2) d b]
  have r: "res_pending res = TimerChoice (res_winner res)" "res_winner res \<in> set active"
    "length (players (res_state res)) = length (players s)"
    "players (res_state res) ! res_winner res = players s ! res_winner res"
    "\<And>j. players (res_state res) ! j = players s ! j \<or>
       (j \<in> set active \<and>
        (\<exists>lost. lossOutcome (players s ! j) lost (players (res_state res) ! j)))"
    by blast+
  have each: "\<And>j. j < length (players s) \<Longrightarrow>
      playerInv (players (res_state res) ! j) \<and>
      isHuman (players (res_state res) ! j) = isHuman (players s ! j)"
  proof -
    fix j assume j: "j < length (players s)"
    then have inv: "playerInv (players s ! j)" using core by (simp add: coreInv_index)
    from r(5) [of j] show "playerInv (players (res_state res) ! j) \<and>
      isHuman (players (res_state res) ! j) = isHuman (players s ! j)"
    proof
      assume "players (res_state res) ! j = players s ! j"
      with inv show ?thesis by simp
    next
      assume "j \<in> set active \<and>
        (\<exists>lost. lossOutcome (players s ! j) lost (players (res_state res) ! j))"
      then obtain lost where lo: "lossOutcome (players s ! j) lost (players (res_state res) ! j)"
        and "j \<in> set (activeOf s)" by (auto simp: act)
      then have "\<not> eliminated (players s ! j)" by (simp add: set_activeOf)
      with lossOutcome_inv [OF lo inv] show ?thesis by blast
    qed
  qed
  have "players (res_state res) \<noteq> []" using core r(3) by (auto simp: coreInv_def)
  then have c: "coreInv (players (res_state res))"
    using each core r(3) by (simp add: coreInv_index)
  from r(2) have "res_winner res < length (players s)" "\<not> eliminated (players s ! res_winner res)"
    by (simp_all add: act set_activeOf)
  then have "pendingInv (res_state res) (TimerChoice (res_winner res))"
    using r(3,4) by (simp add: pendingInv_def)
  with c show ?thesis by (simp add: sessionInv_def r(1))
qed

lemma applyChoice_inv:
  assumes "playerInv p" "\<not> eliminated p"
  shows "playerInv (snd (applyChoice choice p)) \<and>
     isHuman (snd (applyChoice choice p)) = isHuman p"
proof -
  from assms have ne: "dice p \<noteq> []" by (simp add: playerInv_def)
  have "length (dice (snd (applyChoice choice p))) \<ge> length (dice p)"
    by (simp add: applyChoice_def Let_def length_sortDesc)
  with ne have "dice (snd (applyChoice choice p)) \<noteq> []" by auto
  moreover have "madeFirstChoice (snd (applyChoice choice p))"
    "eliminated (snd (applyChoice choice p)) = eliminated p"
    "isHuman (snd (applyChoice choice p)) = isHuman p"
    by (simp_all add: applyChoice_def Let_def)
  ultimately show ?thesis using assms(2) by (simp add: playerInv_def)
qed

lemma checkWinCondition_inv:
  assumes "coreInv (players s)" "checkWinCondition s = Inr (s', u)"
  shows "sessionInv s' u"
proof -
  from checkWinCondition_players [OF assms(2)]
  have "players s' = players s" "u = ShowContinue \<or> (\<exists>w. u = WinScreen w)" by simp_all
  with assms(1) show ?thesis by (auto simp: sessionInv_def pendingInv_def)
qed

lemma winnerChoice_inv:
  assumes "sessionInv s (TimerChoice w)" "winnerChoice w s = Inr (s', u)"
  shows "sessionInv s' u"
proof -
  from assms(1) have core: "coreInv (players s)" and w: "w < length (players s)"
    "\<not> eliminated (players s ! w)"
    by (simp_all add: sessionInv_def pendingInv_def)
  let ?winner = "players s ! w"
  show ?thesis
  proof (cases "isHuman ?winner")
    case True
    with core w(1) have "w = 0" by (simp add: coreInv_index)
    moreover from True assms(2) have "s' = s\<lparr>phase := Choice\<rparr>" "u = ShowChoice (canUpgrade ?winner)"
      by (simp_all add: winnerChoice_def showHumanChoice_def Let_def)
    ultimately show ?thesis using core w(2) by (simp add: sessionInv_def pendingInv_def)
  next
    case False
    let ?w' = "snd (applyChoice (getAIChoice ?winner) ?winner)"
    from False assms(2)
    have chk: "checkWinCondition (s\<lparr>players := (players s)[w := ?w']\<rparr>) = Inr (s', u)"
      by (simp add: winnerChoice_def Let_def split: prod.splits)
    have "playerInv ?winner" using core w(1) by (simp add: coreInv_index)
    from applyChoice_inv [OF this w(2)]
    have "coreInv ((players s)[w := ?w'])" using core by (simp add: coreInv_update)
    then have "coreInv (players (s\<lparr>players := (players s)[w := ?w']\<rparr>))" by simp
    then show ?thesis using chk by (rule checkWinCondition_inv)
  qed
qed

lemma applyHumanChoice_inv:
  assumes "sessionInv s (ShowChoice cu)" "applyHumanChoice choice s = Inr (s', u)"
  shows "sessionInv s' u"
proof -
  from assms(1) have core: "coreInv (players s)" and h: "\<not> eliminated (players s ! 0)"
    by (simp_all add: sessionInv_def pendingInv_def)
  from core obtain winner rest where ps: "players s = winner # rest"
    by (cases "players s") (auto simp: coreInv_def)
  let ?w' = "snd (applyChoice choice winner)"
  from ps assms(2) have chk: "checkWinCondition (s\<lparr>players := ?w' # rest\<rparr>) = Inr (s', u)"
    by (simp add: applyHumanChoice_def split: prod.splits)
  have "playerInv winner" "\<not> eliminated winner" using core h ps by (simp_all add: coreInv_def)
  from applyChoice_inv [OF this, of choice]
  have "playerInv ?w'" "isHuman ?w' = isHuman ((winner # rest) ! 0)" by simp_all
  with core have "coreInv ((winner # rest)[0 := ?w'])" unfolding ps by (rule coreInv_update)
  then have "coreInv (players (s\<lparr>players := ?w' # rest\<rparr>))" by simp
  then show ?thesis using chk by (rule checkWinCondition_inv)
qed

lemma reachable_inv: "reachable s u \<Longrightarrow> sessionInv s u"
proof (induction rule: reachable.induct)
  case (r_init d n names s u)
  then show ?case by (rule initGame_inv)
next
  case (r_select s sides s' u)
  from r_select.IH have "coreInv (players s)" by (simp add: sessionInv_def)
  then show ?case using r_select.hyps(3) by (rule selectDie_inv)
next
  case (r_roll s g s' u g')
  from r_roll.IH have "coreInv (players s)" by (simp add: sessionInv_def)
  then show ?case using r_roll.hyps(3) by (rule executeRound_inv)
next
  case (r_resolve s active g res)
  then show ?case using resolveRound_inv by blast
next
  case (r_winner s w s' u)
  then show ?case using winnerChoice_inv by blast
next
  case (r_choice s cu choice s' u)
  then show ?case using applyHumanChoice_inv by blast
next
  case (r_continue s s' u)
  from r_continue.IH have "coreInv (players s)" by (simp add: sessionInv_def)
  then show ?case using r_continue.hyps(2) by (rule startRound_inv)
qed

text \<open>
  In a session, too, a protected player never holds more than one D4.
\<close>

lemma reachable_one_d4:
  assumes "reachable s u" "p \<in> set (players s)" "\<not> madeFirstChoice p"
  shows "count_list (dice p) 4 \<le> 1"
proof -
  from reachable_inv [OF assms(1)] assms(2) have "playerInv p"
    by (simp add: sessionInv_def coreInv_def)
  with assms(3) have "dice p = [4]" by (simp add: playerInv_def)
  then show ?thesis by simp
qed

section \<open>Every handler returns\<close>

lemma liveInv_map:
  "liveInv ps = ((\<forall>x \<in> set (map liveOf ps). 0 \<le> fst x) \<and> (\<exists>x \<in> set (map liveOf ps). \<not> snd x))"
  by (auto simp: liveInv_def liveOf_def)

lemma liveInv_cong: "map liveOf ps' = map liveOf ps \<Longrightarrow> liveInv ps' = liveInv ps"
  by (simp only: liveInv_map)

lemma startRound_players:
  assumes "startRound s = Inr (s', u)"
  shows "map coreOf (players s') = map coreOf (players s) \<and>
    map liveOf (players s') = map liveOf (players s)"
proof -
  let ?f = "\<lambda>p. if \<not> isHuman p \<and> \<not> eliminated p then p\<lparr>chosenDie := bestDie p\<rparr> else p"
  have m: "map coreOf (map ?f (players s)) = map coreOf (players s)"
    "map liveOf (map ?f (players s)) = map liveOf (players s)"
    by (simp_all add: coreOf_def liveOf_def comp_def del: if_split cong: if_cong)
  from assms have "players s' = map ?f (players s) \<or>
      (\<exists>human rest d. map ?f (players s) = human # rest \<and>
         players s' = human\<lparr>chosenDie := d\<rparr> # rest)"
    by (auto simp: startRound_def Let_def split: list.splits if_splits)
  then have "map coreOf (players s') = map coreOf (map ?f (players s))"
    "map liveOf (players s') = map liveOf (map ?f (players s))"
    by (auto simp: coreOf_def liveOf_def)
  with m show ?thesis by simp
qed

lemma selectDie_players:
  assumes "selectDie sides s = Inr (s', u)"
  shows "map liveOf (players s') = map liveOf (players s)"
  using assms by (auto simp: selectDie_def liveOf_def split: list.splits)

lemma rollAt_scores:
  assumes "rng_ok g" "\<forall>p \<in> set ps. 0 \<le> roundScore p"
  shows "rng_ok (snd (rollAt i (ps, g))) \<and> (\<forall>p \<in> set (fst (rollAt i (ps, g))). 0 \<le> roundScore p)"
proof -
  have eq: "rollAt i (ps, g) = (ps[i := fst (rollForRound (ps ! i) g)], snd (rollForRound (ps ! i) g))"
    by (simp add: rollAt_def split: prod.splits)
  have "rng_ok (snd (rollForRound (ps ! i) g))"
    using assms(1) by (simp add: rollForRound_eq rng_ok_def)
  moreover have "0 \<le> roundScore (fst (rollForRound (ps ! i) g))"
    using rollForRound_spec [OF assms(1)] by blast
  then have "\<forall>p \<in> set (ps[i := fst (rollForRound (ps ! i) g)]). 0 \<le> roundScore p"
    using assms(2) set_update_subset_insert [of ps i] by blast
  ultimately show ?thesis by (simp add: eq)
qed

lemma fold_rollAt_scores:
  assumes "rng_ok g" "\<forall>p \<in> set ps. 0 \<le> roundScore p"
  shows "\<forall>p \<in> set (fst (fold rollAt active (ps, g))). 0 \<le> roundScore p"
  using assms
proof (induction active arbitrary: ps g)
  case Nil
  then show ?case by simp
next
  case (Cons i rest)
  obtain ps1 g1 where st: "rollAt i (ps, g) = (ps1, g1)" by (cases "rollAt i (ps, g)")
  from rollAt_scores [OF Cons.prems, of i] st
  have "rng_ok g1" "\<forall>p \<in> set ps1. 0 \<le> roundScore p" by simp_all
  from Cons.IH [OF this] show ?case by (simp add: st)
qed

lemma some_active_core:
  assumes "map coreOf ps' = map coreOf ps"
  shows "(\<exists>p \<in> set ps'. \<not> eliminated p) = (\<exists>p \<in> set ps. \<not> eliminated p)"
proof -
  have m: "\<And>qs. map eliminated qs = map (\<lambda>x. snd (snd (snd x))) (map coreOf qs)"
    by (simp add: coreOf_def)
  have meq: "map eliminated ps' = map eliminated ps" by (simp only: m assms)
  have e: "\<And>qs. (\<exists>p \<in> set qs. \<not> eliminated p) = (False \<in> set (map eliminated qs))"
    by force
  show ?thesis by (simp only: e meq)
qed

lemma executeRound_live:
  assumes "liveInv (players s)" "rng_ok g" "executeRound s g = ((s', u), g')"
  shows "liveInv (players s')"
proof -
  let ?s1 = "s\<lparr>phase := Rolling\<rparr>"
  let ?r = "fold rollAt (activeOf ?s1) (players ?s1, g)"
  from assms(3) have s': "players s' = fst ?r"
    by (auto simp: executeRound_def Let_def split: prod.splits)
  have "map coreOf (players s') = map coreOf (players s)"
    using fold_rollAt_core [of "activeOf ?s1" "players ?s1" g] by (simp add: s')
  then have "(\<exists>p \<in> set (players s'). \<not> eliminated p) = (\<exists>p \<in> set (players s). \<not> eliminated p)"
    by (rule some_active_core)
  then have "\<exists>p \<in> set (players s'). \<not> eliminated p"
    using assms(1) by (simp add: liveInv_def)
  moreover have "\<forall>p \<in> set (players s'). 0 \<le> roundScore p"
    using fold_rollAt_scores [OF assms(2), of "players ?s1" "activeOf ?s1"] assms(1)
    by (simp add: s' liveInv_def)
  ultimately show ?thesis by (simp add: liveInv_def)
qed

lemma lossOutcome_score:
  assumes "lossOutcome p lost p'"
  shows "roundScore p' = roundScore p"
  using assms by (cases lost) (auto simp: lossOutcome_def eliminateIfEmpty_def)

lemma applyChoice_live: "liveOf (snd (applyChoice choice p)) = liveOf p"
  by (simp add: applyChoice_def liveOf_def Let_def)

lemma map_liveOf_update:
  assumes "liveOf p' = liveOf (ps ! i)"
  shows "map liveOf (ps[i := p']) = map liveOf ps"
proof (cases "i < length ps")
  case True
  then show ?thesis using assms by (simp add: map_update list_update_same_conv)
next
  case False
  then show ?thesis by (simp add: list_update_beyond not_less)
qed

lemma winnerChoice_players:
  assumes "winnerChoice w s = Inr (s', u)"
  shows "map liveOf (players s') = map liveOf (players s)"
proof (cases "isHuman (players s ! w)")
  case True
  with assms show ?thesis by (auto simp: winnerChoice_def showHumanChoice_def Let_def)
next
  case False
  let ?w' = "snd (applyChoice (getAIChoice (players s ! w)) (players s ! w))"
  from False assms
  have chk: "checkWinCondition (s\<lparr>players := (players s)[w := ?w']\<rparr>) = Inr (s', u)"
    by (simp add: winnerChoice_def Let_def split: prod.splits)
  from checkWinCondition_players [OF chk] have "players s' = (players s)[w := ?w']" by simp
  then show ?thesis by (simp add: map_liveOf_update applyChoice_live)
qed

lemma applyHumanChoice_players:
  assumes "applyHumanChoice choice s = Inr (s', u)"
  shows "map liveOf (players s') = map liveOf (players s)"
proof -
  from assms obtain winner rest where ps: "players s = winner # rest"
    by (cases "players s") (auto simp: applyHumanChoice_def)
  let ?w' = "snd (applyChoice choice winner)"
  from ps assms have chk: "checkWinCondition (s\<lparr>players := ?w' # rest\<rparr>) = Inr (s', u)"
    by (simp add: applyHumanChoice_def split: prod.splits)
  from checkWinCondition_players [OF chk] have "players s' = ?w' # rest" by simp
  then show ?thesis by (simp add: ps applyChoice_live)
qed

lemma resolveRound_scores:
  assumes "resolveRound active s g = Inr res" "rng_ok g" "active = activeOf s"
    and "\<forall>p \<in> set (players s). 0 \<le> roundScore p"
  shows "\<forall>p \<in> set (players (res_state res)). 0 \<le> roundScore p"
proof -
  have d: "distinct active" and b: "\<forall>i \<in> set active. i < length (players s)"
    by (simp_all add: assms(3) distinct_activeOf set_activeOf)
  from resolveRound_players [OF assms(1,2) d b]
  have len: "length (players (res_state res)) = length (players s)"
    and each: "\<And>j. players (res_state res) ! j = players s ! j \<or>
       (\<exists>lost. lossOutcome (players s ! j) lost (players (res_state res) ! j))"
    by blast+
  have "\<And>j. roundScore (players (res_state res) ! j) = roundScore (players s ! j)"
    using each lossOutcome_score by metis
  then show ?thesis using assms(4) len by (simp add: all_set_conv_all_nth)
qed

lemma reachable_live: "reachable s u \<Longrightarrow> liveInv (players s)"
proof (induction rule: reachable.induct)
  case (r_init d n names s u)
  let ?ps = "new_Player ''You'' True # map (\<lambda>i. new_Player (nameAt names i) False) [0..<n]"
  have "liveInv ?ps" by (auto simp: liveInv_def new_Player_def)
  moreover from r_init have "map liveOf (players s) = map liveOf ?ps"
    using startRound_players unfolding initGame_def by (metis game_state.select_convs(1))
  ultimately show ?case using liveInv_cong by blast
next
  case (r_select s sides s' u)
  from selectDie_players [OF r_select.hyps(3)] r_select.IH show ?case
    using liveInv_cong by blast
next
  case (r_roll s g s' u g')
  from r_roll.IH r_roll.hyps(2,3) show ?case by (rule executeRound_live)
next
  case (r_resolve s active g res)
  from reachable_inv [OF r_resolve.hyps(1)] have act: "active = activeOf s"
    by (simp add: sessionInv_def pendingInv_def)
  from r_resolve.IH have "\<forall>p \<in> set (players s). 0 \<le> roundScore p" by (simp add: liveInv_def)
  with r_resolve.hyps(3,2) act
  have sc: "\<forall>p \<in> set (players (res_state res)). 0 \<le> roundScore p"
    by (rule resolveRound_scores)
  have "reachable (res_state res) (res_pending res)"
    using r_resolve.hyps by (rule reachable.r_resolve)
  from reachable_inv [OF this] resolveRound_inv
  have "sessionInv (res_state res) (res_pending res)" by simp
  moreover from r_resolve.hyps(3) have "\<exists>w. res_pending res = TimerChoice w"
    by (auto simp: resolveRound_def Math_random_def Let_def split: if_splits)
  ultimately have "\<exists>w < length (players (res_state res)). \<not> eliminated (players (res_state res) ! w)"
    by (auto simp: sessionInv_def pendingInv_def)
  then have "\<exists>p \<in> set (players (res_state res)). \<not> eliminated p" by (metis nth_mem)
  with sc show ?case by (simp add: liveInv_def)
next
  case (r_winner s w s' u)
  from winnerChoice_players [OF r_winner.hyps(2)] r_winner.IH show ?case
    using liveInv_cong by blast
next
  case (r_choice s cu choice s' u)
  from applyHumanChoice_players [OF r_choice.hyps(3)] r_choice.IH show ?case
    using liveInv_cong by blast
next
  case (r_continue s s' u)
  from startRound_players [OF r_continue.hyps(2)] r_continue.IH show ?case
    using liveInv_cong by blast
qed

text \<open>
  When a session resolves a round, the array of active players is not empty and holds
  distinct players of the session, none with a negative score.
\<close>

lemma reachable_resolve_ready:
  assumes "reachable s (TimerResolve active)"
  shows "active \<noteq> [] \<and> distinct active \<and> (\<forall>i \<in> set active. i < length (players s)) \<and>
    (\<forall>i \<in> set active. 0 \<le> roundScore (players s ! i))"
proof -
  from reachable_inv [OF assms] have act: "active = activeOf s"
    by (simp add: sessionInv_def pendingInv_def)
  from reachable_live [OF assms] have live: "liveInv (players s)" .
  then obtain p where "p \<in> set (players s)" "\<not> eliminated p" by (auto simp: liveInv_def)
  then have "filter (\<lambda>p. \<not> eliminated p) (players s) \<noteq> []" by (auto simp: filter_empty_conv)
  then have "active \<noteq> []" using length_activeOf [of s] act by auto
  moreover have "\<forall>i \<in> set active. 0 \<le> roundScore (players s ! i)"
    using live act by (simp add: liveInv_def set_activeOf)
  ultimately show ?thesis by (simp add: act distinct_activeOf set_activeOf)
qed

text \<open>
  In a configuration that a session reaches, the handler that is pending returns
  normally, whatever button is pressed and whatever the random source draws: no
  \<open>TypeError\<close>, and \<^verbatim>\<open>human.dice[0]\<close> is never read from an empty array.
\<close>

lemma reachable_handlers_return:
  assumes "reachable s u"
  shows "(u = ShowDieSelector \<longrightarrow> (\<exists>s' u'. selectDie sides s = Inr (s', u'))) \<and>
    (u = TimerResolve active \<and> rng_ok g \<longrightarrow> (\<exists>res. resolveRound active s g = Inr res)) \<and>
    (u = TimerChoice w \<longrightarrow> (\<exists>s' u'. winnerChoice w s = Inr (s', u'))) \<and>
    (u = ShowChoice cu \<longrightarrow> (\<exists>s' u'. applyHumanChoice choice s = Inr (s', u'))) \<and>
    (u = ShowContinue \<longrightarrow> (\<exists>s' u'. startRound s = Inr (s', u')))"
proof -
  from reachable_inv [OF assms] have core: "coreInv (players s)" and pend: "pendingInv s u"
    by (simp_all add: sessionInv_def)
  from core obtain human rest where ps: "players s = human # rest"
    by (cases "players s") (auto simp: coreInv_def)
  have a: "\<exists>s' u'. selectDie sides s = Inr (s', u')" by (simp add: selectDie_def ps)
  have b: "u = TimerResolve active \<Longrightarrow> rng_ok g \<Longrightarrow> \<exists>res. resolveRound active s g = Inr res"
  proof -
    assume u: "u = TimerResolve active" and g: "rng_ok g"
    from assms u have "reachable s (TimerResolve active)" by simp
    from reachable_resolve_ready [OF this]
    have ne: "active \<noteq> []" and sc: "\<forall>i \<in> set active. 0 \<le> roundScore (players s ! i)"
      by simp_all
    from tiedOf_nonempty [OF ne sc] have "tiedOf (players s) active \<noteq> []" .
    moreover from g have "0 \<le> g 0" "g 0 < 1" by (simp_all add: rng_ok_def)
    ultimately have "nat \<lfloor>g 0 * real (length (tiedOf (players s) active))\<rfloor>
        < length (tiedOf (players s) active)" by (simp add: floor_pick)
    then show ?thesis by (simp add: resolveRound_def Math_random_def Let_def)
  qed
  have c: "\<exists>s' u'. winnerChoice w s = Inr (s', u')"
  proof (cases "isHuman (players s ! w)")
    case True
    then show ?thesis by (simp add: winnerChoice_def Let_def showHumanChoice_def)
  next
    case False
    let ?w' = "snd (applyChoice (getAIChoice (players s ! w)) (players s ! w))"
    have "players s \<noteq> []" by (simp add: ps)
    then have "players (s\<lparr>players := (players s)[w := ?w']\<rparr>) \<noteq> []" by simp
    from checkWinCondition_total [OF this] False show ?thesis
      by (simp add: winnerChoice_def Let_def case_prod_unfold)
  qed
  have d: "\<exists>s' u'. applyHumanChoice choice s = Inr (s', u')"
  proof -
    let ?w' = "snd (applyChoice choice human)"
    have "players (s\<lparr>players := ?w' # rest\<rparr>) \<noteq> []" by simp
    from checkWinCondition_total [OF this] show ?thesis
      by (simp add: applyHumanChoice_def ps case_prod_unfold)
  qed
  have e: "\<exists>s' u'. startRound s = Inr (s', u')"
  proof -
    have "playerInv human" using core ps by (simp add: coreInv_def)
    then have "\<not> eliminated human \<Longrightarrow> dice human \<noteq> []" by (simp add: playerInv_def)
    then show ?thesis
      by (cases "dice human") (auto simp: startRound_def ps Let_def)
  qed
  from a b c d e show ?thesis by blast
qed

section \<open>The example session\<close>

lemmas demo_defs = mkState_def mkPlayer_def sessionStart_def round1Rolled_def round1Resolved_def
  round1Chosen_def round2Start_def round2Rolled_def round2Resolved_def

lemma step0: "initGame Easy 1 [''Aria''] = Inr (sessionStart, ShowRollSection)"
  by (simp add: initGame_def startRound_def new_Player_def nameAt_def demo_defs bestDie_def Let_def)

lemma step1: "fst (executeRound sessionStart (lowThenHigh 4)) = (round1Rolled, TimerResolve [0, 1])"
  by (simp add: executeRound_def activeOf_def rollAt_def rollForRound_eq demo_defs
      lowThenHigh_def Let_def upt_rec [of _ "numeral _"] split: prod.splits)

lemma step2: "\<exists>res. resolveRound [0, 1] round1Rolled (constRng 0) = Inr res \<and>
    res_state res = round1Resolved \<and> res_pending res = TimerChoice 1"
  by (simp add: resolveRound_def tiedOf_def maxScoreOf_def Math_random_def constRng_def
      loserStep_def loseRandomDie_def isProtected_def demo_defs Let_def)

lemma step3: "winnerChoice 1 round1Resolved = Inr (round1Chosen, ShowContinue)"
  by (simp add: winnerChoice_def getAIChoice_def applyChoice_def checkWinCondition_def
      activeOf_def d100Count_def DICE_SIDES_def sortDesc_def demo_defs Let_def)

lemma step4: "startRound round1Chosen = Inr (round2Start, ShowRollSection)"
  by (simp add: startRound_def bestDie_def demo_defs Let_def)

lemma step5: "fst (executeRound round2Start (highThenLow 4)) = (round2Rolled, TimerResolve [0, 1])"
  by (simp add: executeRound_def activeOf_def rollAt_def rollForRound_eq demo_defs
      highThenLow_def Let_def upt_rec [of _ "numeral _"] split: prod.splits)

lemma step6: "\<exists>res. resolveRound [0, 1] round2Rolled (constRng 0) = Inr res \<and>
    res_state res = round2Resolved \<and> res_pending res = TimerChoice 0"
  by (simp add: resolveRound_def tiedOf_def maxScoreOf_def Math_random_def constRng_def
      loserStep_def loseRandomDie_def pickFrom_def splice1_def isProtected_def demo_defs Let_def)

lemma rng_ok_lowThenHigh: "rng_ok (lowThenHigh k)"
  by (simp add: rng_ok_def lowThenHigh_def)

lemma rng_ok_highThenLow: "rng_ok (highThenLow k)"
  by (simp add: rng_ok_def highThenLow_def)

lemma reach_sessionStart: "reachable sessionStart ShowRollSection"
  using step0 by (rule r_init)

lemma reach_round1Rolled: "reachable round1Rolled (TimerResolve [0, 1])"
proof -
  have "executeRound sessionStart (lowThenHigh 4) =
      ((round1Rolled, TimerResolve [0, 1]), snd (executeRound sessionStart (lowThenHigh 4)))"
    using step1 by (metis prod.collapse)
  with reach_sessionStart rng_ok_lowThenHigh show ?thesis by (rule r_roll)
qed

lemma reach_round1Resolved: "reachable round1Resolved (TimerChoice 1)"
proof -
  from step2 obtain res where res: "resolveRound [0, 1] round1Rolled (constRng 0) = Inr res"
    "res_state res = round1Resolved" "res_pending res = TimerChoice 1" by blast
  have "rng_ok (constRng 0)" by (simp add: rng_ok_constRng)
  with reach_round1Rolled have "reachable (res_state res) (res_pending res)"
    using res(1) by (rule r_resolve)
  then show ?thesis by (simp add: res)
qed

lemma reach_round1Chosen: "reachable round1Chosen ShowContinue"
  using reach_round1Resolved step3 by (rule r_winner)

lemma reach_round2Start: "reachable round2Start ShowRollSection"
  using reach_round1Chosen step4 by (rule r_continue)

lemma reach_round2Rolled: "reachable round2Rolled (TimerResolve [0, 1])"
proof -
  have "executeRound round2Start (highThenLow 4) =
      ((round2Rolled, TimerResolve [0, 1]), snd (executeRound round2Start (highThenLow 4)))"
    using step5 by (metis prod.collapse)
  with reach_round2Start rng_ok_highThenLow show ?thesis by (rule r_roll)
qed

lemma reach_round2Resolved: "reachable round2Resolved (TimerChoice 0)"
proof -
  from step6 obtain res where res: "resolveRound [0, 1] round2Rolled (constRng 0) = Inr res"
    "res_state res = round2Resolved" "res_pending res = TimerChoice 0" by blast
  have "rng_ok (constRng 0)" by (simp add: rng_ok_constRng)
  with reach_round2Rolled have "reachable (res_state res) (res_pending res)"
    using res(1) by (rule r_resolve)
  then show ?thesis by (simp add: res)
qed





text \<open>
  The loss of the protected human in round 1 of the session, who keeps the lone D4;
  and, to show the exclusion at work, a protected player put together by hand with a
  D6 and a D4, who loses the D6 whatever the draw.
\<close>

theorem loseRandomDie_protected_witness:
  "reachable round1Rolled (TimerResolve [0, 1]) \<and>
   \<not> madeFirstChoice (players round1Rolled ! 0) \<and>
   count_list (dice (players round1Rolled ! 0)) 4 \<le> 1 \<and>
   rng_ok (constRng 0) \<and>
   dice (players round1Rolled ! 0) = [4] \<and>
   loseRandomDie (players round1Rolled ! 0) (constRng 0) =
     (None, players round1Rolled ! 0, constRng 0) \<and>
   \<not> madeFirstChoice (examplePlayer [6, 4] 6 False) \<and>
   count_list (dice (examplePlayer [6, 4] 6 False)) 4 \<le> 1 \<and>
   loseRandomDie (examplePlayer [6, 4] 6 False) (constRng (9 / 10)) =
     (Some 6, examplePlayer [4] 6 False, constRng (9 / 10)) \<and>
   4 \<in> set (dice (examplePlayer [4] 6 False)) \<and> (6::nat) \<noteq> 4"
proof -
  have m: "players round1Rolled ! 0 \<in> set (players round1Rolled)"
    and h1: "\<not> madeFirstChoice (players round1Rolled ! 0)"
    by (simp_all add: demo_defs)
  from reachable_one_d4 [OF reach_round1Rolled m h1]
  have h2: "count_list (dice (players round1Rolled ! 0)) 4 \<le> 1" .
  have h3: "rng_ok (constRng 0)" by (simp add: rng_ok_constRng)
  have d1: "dice (players round1Rolled ! 0) = [4]" by (simp add: demo_defs)
  from loseRandomDie_protected [OF h1 h2 h3] d1
  have r1: "loseRandomDie (players round1Rolled ! 0) (constRng 0) =
     (None, players round1Rolled ! 0, constRng 0)" by blast
  have k1: "\<not> madeFirstChoice (examplePlayer [6, 4] 6 False)"
    and k2: "count_list (dice (examplePlayer [6, 4] 6 False)) 4 \<le> 1"
    and d2: "4 \<in> set (dice (examplePlayer [6, 4] 6 False))"
    by (simp_all add: examplePlayer_def)
  have k3: "rng_ok (constRng (9 / 10))" by (simp add: rng_ok_constRng)
  have e2: "loseRandomDie (examplePlayer [6, 4] 6 False) (constRng (9 / 10)) =
     (Some 6, examplePlayer [4] 6 False, constRng (9 / 10))"
    by (simp add: loseRandomDie_def examplePlayer_def isProtected_def pickFrom_def
        Math_random_def splice1_def constRng_def Let_def)
  from loseRandomDie_protected [OF k1 k2 k3] e2 d2
  have r2: "4 \<in> set (dice (examplePlayer [4] 6 False)) \<and> (6::nat) \<noteq> 4" by blast
  from reach_round1Rolled h1 h2 h3 d1 r1 k1 k2 e2 r2 show ?thesis by blast
qed

section \<open>What holds between rounds\<close>

text \<open>
  Claim C8: in every configuration a session can reach (so at every point between
  rounds), a player's dice are empty exactly when the player is eliminated.
\<close>

theorem reachable_empty_iff_eliminated:
  assumes "reachable s u"
  shows "\<forall>p \<in> set (players s). (length (dice p) = 0) = eliminated p"
  using reachable_inv [OF assms] by (simp add: sessionInv_def coreInv_def playerInv_def)

theorem reachable_empty_iff_eliminated_witness:
  "reachable round2Resolved (TimerChoice 0) \<and>
   list_all (\<lambda>p. (length (dice p) = 0) = eliminated p) (players round2Resolved) \<and>
   eliminated (players round2Resolved ! 1) \<and>
   \<not> eliminated (players round2Resolved ! 0)"
proof -
  from reachable_empty_iff_eliminated [OF reach_round2Resolved]
  have "list_all (\<lambda>p. (length (dice p) = 0) = eliminated p) (players round2Resolved)"
    by (simp add: list_all_iff)
  moreover have "eliminated (players round2Resolved ! 1)"
    "\<not> eliminated (players round2Resolved ! 0)"
    by (simp_all add: demo_defs)
  ultimately show ?thesis using reach_round2Resolved by blast
qed

text \<open>
  Claim C9: in every configuration a session can reach, a player with
  \<^verbatim>\<open>madeFirstChoice = false\<close> holds exactly one die, a D4.
\<close>

theorem reachable_protected_single_d4:
  assumes "reachable s u"
  shows "\<forall>p \<in> set (players s). \<not> madeFirstChoice p \<longrightarrow> dice p = [4]"
  using reachable_inv [OF assms] by (simp add: sessionInv_def coreInv_def playerInv_def)

theorem reachable_protected_single_d4_witness:
  "reachable round1Chosen ShowContinue \<and>
   \<not> madeFirstChoice (players round1Chosen ! 0) \<and>
   dice (players round1Chosen ! 0) = [4]"
proof -
  have m: "players round1Chosen ! 0 \<in> set (players round1Chosen)"
    and n: "\<not> madeFirstChoice (players round1Chosen ! 0)"
    by (simp_all add: demo_defs)
  from reachable_protected_single_d4 [OF reach_round1Chosen] m n
  have "dice (players round1Chosen ! 0) = [4]" by blast
  with reach_round1Chosen n show ?thesis by blast
qed

end
